theory Spec2Isabelle
  imports Complex_Main "HOL-Library.While_Combinator"
begin

section \<open>Process descriptors (srtf\_logic.py)\<close>

text \<open>
  A process is a Python dict. The keys the scheduler reads or writes are the fields of the
  record below; a key that may be absent is an \<open>option\<close> field (\<open>None\<close>: the key is not in
  the dict). The key \<open>pid\<close> is a string and is taken to be present; \<open>arrival\<close> and \<open>burst\<close>
  and their alternate spellings \<open>arrival_time\<close> and \<open>burst_time\<close> hold Python ints; \<open>ct\<close>,
  \<open>tat\<close> and \<open>wt\<close> are the keys the scheduler adds.
\<close>

record proc =
  pid :: string
  arrival :: "int option"
  burst :: "int option"
  arrival_time :: "int option"
  burst_time :: "int option"
  ct :: "int option"
  tat :: "int option"
  wt :: "int option"

datatype error = KeyError string

text \<open>
  The body of the loop \<open>for p in procs\<close> that copies an alternate spelling to the canonical
  key when only the alternate one is present.
\<close>

definition alias_keys :: "proc \<Rightarrow> proc" where
  "alias_keys p =
     (let p1 = (if arrival_time p \<noteq> None \<and> arrival p = None
                then p\<lparr>arrival := arrival_time p\<rparr> else p)
      in (if burst_time p1 \<noteq> None \<and> burst p1 = None
          then p1\<lparr>burst := burst_time p1\<rparr> else p1))"

section \<open>The selection scan\<close>

text \<open>
  One iteration of \<open>for i in range(n)\<close>; the pair is \<open>(idx, min_rem)\<close>, where \<open>None\<close> stands
  for \<open>idx == -1\<close>.
\<close>

definition scan_step :: "proc list \<Rightarrow> int list \<Rightarrow> int \<Rightarrow> nat option \<times> int \<Rightarrow> nat \<Rightarrow> nat option \<times> int" where
  "scan_step ps rem now acc i =
     (case acc of (idx, min_rem) \<Rightarrow>
        if the (arrival (ps ! i)) \<le> now \<and> rem ! i > 0
        then (if rem ! i < min_rem then (Some i, rem ! i) else (idx, min_rem))
        else (idx, min_rem))"

definition select :: "proc list \<Rightarrow> int list \<Rightarrow> int \<Rightarrow> nat option" where
  "select ps rem now = fst (foldl (scan_step ps rem now) (None, 10 ^ 9) [0 ..< length ps])"

section \<open>The simulation loop\<close>

record state =
  procs :: "proc list"
  remaining :: "int list"
  completed :: nat
  tick :: int
  gantt :: "string list"

text \<open>The updates made when \<open>remaining[idx] == 0\<close>; \<open>finish\<close> is the tick after the increment.\<close>

definition finish_proc :: "int \<Rightarrow> proc \<Rightarrow> proc" where
  "finish_proc finish p =
     (let p1 = p\<lparr>ct := Some finish\<rparr>;
          p2 = p1\<lparr>tat := Some (finish - the (arrival p1))\<rparr>;
          p3 = p2\<lparr>wt := Some (the (tat p2) - the (burst p2))\<rparr>
      in if the (wt p3) < 0 then p3\<lparr>wt := Some 0\<rparr> else p3)"

text \<open>One pass through the body of \<open>while completed < n\<close>.\<close>

definition srtf_step :: "state \<Rightarrow> state" where
  "srtf_step s =
     (case select (procs s) (remaining s) (tick s) of
        None \<Rightarrow> s\<lparr>gantt := gantt s @ [''Idle''], tick := tick s + 1\<rparr>
      | Some idx \<Rightarrow>
          (let s1 = s\<lparr>gantt := gantt s @ [pid (procs s ! idx)]\<rparr>;
               s2 = s1\<lparr>remaining := (remaining s1)[idx := remaining s1 ! idx - 1]\<rparr>;
               s3 = s2\<lparr>tick := tick s2 + 1\<rparr>
           in if remaining s3 ! idx = 0
              then s3\<lparr>completed := completed s3 + 1,
                      procs := (procs s3)[idx := finish_proc (tick s3) (procs s3 ! idx)]\<rparr>
              else s3))"

text \<open>The loop may run forever; \<open>None\<close> is the value of a run that never leaves it.\<close>

partial_function (option) srtf_loop :: "nat \<Rightarrow> state \<Rightarrow> state option" where
  "srtf_loop n s = (if completed s < n then srtf_loop n (srtf_step s) else Some s)"

declare srtf_loop.simps [code]

definition init_state :: "proc list \<Rightarrow> state" where
  "init_state ps =
     \<lparr>procs = ps, remaining = map (\<lambda>p. the (burst p)) ps, completed = 0, tick = 0, gantt = []\<rparr>"

definition get_or_0 :: "int option \<Rightarrow> int" where
  "get_or_0 v = (case v of Some x \<Rightarrow> x | None \<Rightarrow> 0)"

text \<open>
  The whole function. The outer \<open>option\<close> is \<open>None\<close> when the loop does not terminate; \<open>Inl\<close> is
  the exception raised by a missing key (the sort raises on the first missing \<open>arrival\<close>,
  the list of remaining bursts on the first missing \<open>burst\<close>). Python's stable \<open>list.sort\<close>
  is \<open>sort_key\<close>. The two averages are the exact quotients that Python's true division
  rounds to a float.
\<close>

definition srtf_scheduling :: "proc list \<Rightarrow> (error + proc list \<times> rat \<times> rat \<times> string list) option" where
  "srtf_scheduling processes =
     (if processes = [] then Some (Inr ([], 0, 0, []))
      else
        let aliased = map alias_keys processes in
        if list_ex (\<lambda>p. arrival p = None) aliased then Some (Inl (KeyError ''arrival''))
        else
          let sorted_procs = sort_key (\<lambda>x. the (arrival x)) aliased;
              n = length sorted_procs in
          if list_ex (\<lambda>p. burst p = None) sorted_procs then Some (Inl (KeyError ''burst''))
          else
            (case srtf_loop n (init_state sorted_procs) of
               None \<Rightarrow> None
             | Some s \<Rightarrow>
                 let total_wt = sum_list (map (\<lambda>p. get_or_0 (wt p)) (procs s));
                     total_tat = sum_list (map (\<lambda>p. get_or_0 (tat p)) (procs s))
                 in Some (Inr (procs s, of_int total_wt / of_nat n, of_int total_tat / of_nat n,
                               gantt s))))"

section \<open>Segments of the chart (srtf\_gui.py)\<close>

text \<open>
  The loop \<open>for i in range(1, len(gantt))\<close>: the first argument is the rest of the labels,
  \<open>gantt[i:]\<close>, the others are the loop variables.
\<close>

fun seg_loop :: "'a list \<Rightarrow> nat \<Rightarrow> ('a \<times> nat \<times> nat) list \<Rightarrow> 'a \<Rightarrow> nat \<Rightarrow> nat \<Rightarrow> ('a \<times> nat \<times> nat) list" where
  "seg_loop [] i segs cur start len = segs @ [(cur, start, len)]"
| "seg_loop (x # xs) i segs cur start len =
     (if x = cur then seg_loop xs (i + 1) segs cur start (len + 1)
      else seg_loop xs (i + 1) (segs @ [(cur, start, len)]) x i 1)"

definition build_segments :: "'a list \<Rightarrow> ('a \<times> nat \<times> nat) list" where
  "build_segments g = (case g of [] \<Rightarrow> [] | x # xs \<Rightarrow> seg_loop xs 1 [] x 0 1)"

text \<open>A descriptor as the input form builds it: the three keys \<open>pid\<close>, \<open>arrival\<close>, \<open>burst\<close>.\<close>

definition mk_proc :: "string \<Rightarrow> int \<Rightarrow> int \<Rightarrow> proc" where
  "mk_proc name a b =
     \<lparr>pid = name, arrival = Some a, burst = Some b, arrival_time = None, burst_time = None,
      ct = None, tat = None, wt = None\<rparr>"

text \<open>
  Expanding a segment list repeats each label as many times as its length says;
  \<open>contig k\<close> holds of a segment list that starts at tick \<open>k\<close>, has no empty segment and no gap.
\<close>

definition expand :: "('a \<times> nat \<times> nat) list \<Rightarrow> 'a list" where
  "expand segs = concat (map (\<lambda>(lab, start, len). replicate len lab) segs)"

fun contig :: "nat \<Rightarrow> ('a \<times> nat \<times> nat) list \<Rightarrow> bool" where
  "contig k [] = True"
| "contig k ((lab, start, len) # r) = (start = k \<and> 0 < len \<and> contig (k + len) r)"

section \<open>Notions used to state the properties\<close>

text \<open>
  The canonical arrival and burst of a descriptor, the well-formed descriptors (both keys
  present, arrival non-negative, burst positive), the list as the scheduler orders it, and
  the invariants of the simulation loop, stated against the ordered list \<open>ps0\<close>.
\<close>

definition arr :: "proc \<Rightarrow> int" where "arr p = the (arrival p)"
definition bur :: "proc \<Rightarrow> int" where "bur p = the (burst p)"

text \<open>The test of the scan: process \<open>j\<close> has arrived and has work left.\<close>

definition runnable :: "proc list \<Rightarrow> int list \<Rightarrow> int \<Rightarrow> nat \<Rightarrow> bool" where
  "runnable ps rem now j = (the (arrival (ps ! j)) \<le> now \<and> 0 < rem ! j)"

text \<open>
  The loop never changes the keys of a descriptor, only adds \<open>ct\<close>, \<open>tat\<close>, \<open>wt\<close>; a finished
  process carries a completion time between arrival + burst and the current tick, and the
  two times derived from it.
\<close>

definition same_keys :: "proc \<Rightarrow> proc \<Rightarrow> bool" where
  "same_keys p q = (pid p = pid q \<and> arrival p = arrival q \<and> burst p = burst q
     \<and> arrival_time p = arrival_time q \<and> burst_time p = burst_time q)"

definition finished :: "proc \<Rightarrow> int \<Rightarrow> bool" where
  "finished p now = (\<exists>c. ct p = Some c \<and> arr p + bur p \<le> c \<and> c \<le> now
     \<and> tat p = Some (c - arr p) \<and> wt p = Some (max 0 (c - arr p - bur p)))"

definition inv_shape :: "proc list \<Rightarrow> state \<Rightarrow> bool" where
  "inv_shape ps0 s = (length (procs s) = length ps0 \<and> length (remaining s) = length ps0
     \<and> tick s = int (length (gantt s))
     \<and> (\<forall>i<length ps0. same_keys (procs s ! i) (ps0 ! i)))"

definition inv_rem :: "proc list \<Rightarrow> state \<Rightarrow> bool" where
  "inv_rem ps0 s = (completed s = length (filter (\<lambda>r. r = 0) (remaining s))
     \<and> (\<forall>i<length ps0. 0 \<le> remaining s ! i \<and> remaining s ! i \<le> bur (ps0 ! i)))"

definition inv_time :: "proc list \<Rightarrow> state \<Rightarrow> bool" where
  "inv_time ps0 s = (\<forall>i<length ps0. remaining s ! i < bur (ps0 ! i) \<longrightarrow>
       arr (ps0 ! i) + (bur (ps0 ! i) - remaining s ! i) \<le> tick s)"

definition inv_fin :: "proc list \<Rightarrow> state \<Rightarrow> bool" where
  "inv_fin ps0 s = (\<forall>i<length ps0. remaining s ! i = 0 \<longrightarrow> finished (procs s ! i) (tick s))"

definition inv :: "proc list \<Rightarrow> state \<Rightarrow> bool" where
  "inv ps0 s = (inv_shape ps0 s \<and> inv_rem ps0 s \<and> inv_time ps0 s \<and> inv_fin ps0 s)"

text \<open>
  A well-formed descriptor has both canonical keys, a non-negative arrival and a positive
  burst. \<open>max_arrival\<close> is the largest arrival of such descriptors (\<open>max_arrival_Max\<close>), and 0
  for the empty list.
\<close>

definition valid_proc :: "proc \<Rightarrow> bool" where
  "valid_proc p =
     (case arrival p of None \<Rightarrow> False
      | Some a \<Rightarrow> (case burst p of None \<Rightarrow> False | Some b \<Rightarrow> 0 \<le> a \<and> 0 < b))"

definition sum_bursts :: "proc list \<Rightarrow> int" where
  "sum_bursts ps = sum_list (map bur ps)"

definition max_arrival :: "proc list \<Rightarrow> int" where
  "max_arrival ps = foldr (\<lambda>p m. max (arr p) m) ps 0"

definition inv_bound :: "proc list \<Rightarrow> state \<Rightarrow> bool" where
  "inv_bound ps0 s = (sum_list (remaining s) \<le> sum_bursts ps0
     \<and> tick s + sum_list (remaining s) \<le> sum_bursts ps0 + max_arrival ps0)"

definition by_arrival :: "proc list \<Rightarrow> proc list" where
  "by_arrival ps = sort_key (\<lambda>x. the (arrival x)) ps"

definition running :: "nat \<Rightarrow> state \<Rightarrow> bool" where
  "running n s = (completed s < n)"

text \<open>
  The state after \<open>k\<close> passes of the loop body, the index the scan selects at tick \<open>k\<close>
  (\<open>None\<close>: the tick is idle), and the label the trace gets for it.
\<close>

definition sched_state :: "proc list \<Rightarrow> nat \<Rightarrow> state" where
  "sched_state ps0 k = (srtf_step ^^ k) (init_state ps0)"

definition executes :: "proc list \<Rightarrow> nat \<Rightarrow> nat option" where
  "executes ps0 k =
     (let s = sched_state ps0 k in select (procs s) (remaining s) (tick s))"

definition label_of :: "proc list \<Rightarrow> nat option \<Rightarrow> string" where
  "label_of ps0 e = (case e of None \<Rightarrow> ''Idle'' | Some i \<Rightarrow> pid (ps0 ! i))"

text \<open>The bounds on a record's completion time, for a trace of length \<open>T\<close>.\<close>

definition ct_in_bounds :: "nat \<Rightarrow> proc \<Rightarrow> bool" where
  "ct_in_bounds T r = (case ct r of None \<Rightarrow> False | Some c \<Rightarrow> arr r + bur r \<le> c \<and> c \<le> int T)"

text \<open>Every tick of the trace is a unit of some burst or an idle entry.\<close>

definition inv_cons :: "proc list \<Rightarrow> state \<Rightarrow> bool" where
  "inv_cons ps0 s = (int (length (gantt s))
     = sum_bursts ps0 - sum_list (remaining s) + int (count_list (gantt s) ''Idle''))"

text \<open>A small input with an idle gap and an input order that differs from the arrival order.\<close>

definition demo :: "proc list" where
  "demo = [mk_proc ''A'' 3 2, mk_proc ''B'' 0 1]"

text \<open>Tick \<open>m\<close> is the last tick of the trace at which process \<open>i\<close> of the sorted list runs.\<close>

definition last_unit_at :: "proc list \<Rightarrow> string list \<Rightarrow> nat \<Rightarrow> nat \<Rightarrow> bool" where
  "last_unit_at ps0 trace i m =
     (m < length trace \<and> executes ps0 m = Some i
      \<and> list_all (\<lambda>j. executes ps0 j \<noteq> Some i) [Suc m ..< length trace])"

text \<open>
  What a record keeps of its descriptor, and an input whose arrival order, input order
  and completion order all differ.
\<close>

definition core :: "proc \<Rightarrow> string \<times> int \<times> int" where
  "core p = (pid p, arr p, bur p)"

definition shuffled :: "proc list" where
  "shuffled = [mk_proc ''P1'' 5 1, mk_proc ''P2'' 0 8, mk_proc ''P3'' 1 2]"

text \<open>
  Renaming a key of a descriptor to its alternate spelling; \<open>respell (a, b)\<close> renames
  \<open>arrival\<close> when \<open>a\<close> holds and \<open>burst\<close> when \<open>b\<close> holds. A plain descriptor has neither
  alternate key; \<open>erase\<close> drops both alternate keys, and \<open>strip_result\<close> does so in every
  record of a result. \<open>srtf_tail\<close> is \<open>srtf_scheduling\<close> from the sort on, as a function of
  the list the aliasing loop leaves.
\<close>

definition rename_arrival :: "proc \<Rightarrow> proc" where
  "rename_arrival p = p\<lparr>arrival_time := arrival p, arrival := None\<rparr>"

definition rename_burst :: "proc \<Rightarrow> proc" where
  "rename_burst p = p\<lparr>burst_time := burst p, burst := None\<rparr>"

definition respell :: "bool \<times> bool \<Rightarrow> proc \<Rightarrow> proc" where
  "respell f p =
     (let p1 = (if fst f then rename_arrival p else p)
      in (if snd f then rename_burst p1 else p1))"

definition plain :: "proc \<Rightarrow> bool" where
  "plain p = (arrival_time p = None \<and> burst_time p = None)"

definition erase :: "proc \<Rightarrow> proc" where
  "erase p = p\<lparr>arrival_time := None, burst_time := None\<rparr>"

definition erase_state :: "state \<Rightarrow> state" where
  "erase_state s = s\<lparr>procs := map erase (procs s)\<rparr>"

definition strip_result ::
  "(error + proc list \<times> rat \<times> rat \<times> string list) option
    \<Rightarrow> (error + proc list \<times> rat \<times> rat \<times> string list) option" where
  "strip_result res =
     map_option (map_sum id (\<lambda>(recs, avg_wt, avg_tat, trace).
        (map erase recs, avg_wt, avg_tat, trace))) res"

definition srtf_tail :: "proc list \<Rightarrow> (error + proc list \<times> rat \<times> rat \<times> string list) option" where
  "srtf_tail aliased =
     (if list_ex (\<lambda>p. arrival p = None) aliased then Some (Inl (KeyError ''arrival''))
      else
        let sorted_procs = sort_key (\<lambda>x. the (arrival x)) aliased;
            n = length sorted_procs in
        if list_ex (\<lambda>p. burst p = None) sorted_procs then Some (Inl (KeyError ''burst''))
        else
          (case srtf_loop n (init_state sorted_procs) of
             None \<Rightarrow> None
           | Some s \<Rightarrow>
               let total_wt = sum_list (map (\<lambda>p. get_or_0 (wt p)) (procs s));
                   total_tat = sum_list (map (\<lambda>p. get_or_0 (tat p)) (procs s))
               in Some (Inr (procs s, of_int total_wt / of_nat n, of_int total_tat / of_nat n,
                             gantt s))))"

text \<open>Two processes that tie with a burst equal to the scan's initial minimum.\<close>

definition tied :: "proc list" where
  "tied = [mk_proc ''P1'' 0 1000000000, mk_proc ''P2'' 0 1000000000]"

section \<open>Empty input\<close>

text \<open>
  C8: called with the empty process list, \<open>srtf_scheduling\<close> returns the empty record list,
  both averages zero and the empty trace, and raises nothing.
\<close>

theorem srtf_empty: "srtf_scheduling [] = Some (Inr ([], 0, 0, []))"
  by (simp add: srtf_scheduling_def)

section \<open>The preemption scenario\<close>

text \<open>
  C1: for the input P1 (arrival 0, burst 8), P2 (arrival 1, burst 4) the trace is
  P1, four times P2, seven times P1; the record of P1 has CT 12, TAT 12, WT 4 and the record
  of P2 has CT 5, TAT 4, WT 0 (so the averages are 2 and 8).
\<close>

theorem srtf_preemption_scenario:
  "srtf_scheduling [mk_proc ''P1'' 0 8, mk_proc ''P2'' 1 4] =
     Some (Inr ([(mk_proc ''P1'' 0 8)\<lparr>ct := Some 12, tat := Some 12, wt := Some 4\<rparr>,
                 (mk_proc ''P2'' 1 4)\<lparr>ct := Some 5, tat := Some 4, wt := Some 0\<rparr>],
                2, 8,
                [''P1'', ''P2'', ''P2'', ''P2'', ''P2'',
                 ''P1'', ''P1'', ''P1'', ''P1'', ''P1'', ''P1'', ''P1'']))"
  by code_simp

section \<open>Segments: maximal runs and the round trip\<close>

lemma seg_loop_append:
  "seg_loop xs i segs cur start len = segs @ seg_loop xs i [] cur start len"
proof (induction xs arbitrary: i segs cur start len)
  case Nil
  show ?case by simp
next
  case (Cons x xs)
  show ?case
  proof (cases "x = cur")
    case True
    then show ?thesis using Cons.IH [of "i + 1" segs cur start "len + 1"] by simp
  next
    case False
    then show ?thesis
      using Cons.IH [of "i + 1" "segs @ [(cur, start, len)]" x i 1]
        Cons.IH [of "i + 1" "[(cur, start, len)]" x i 1] by simp
  qed
qed

lemma seg_loop_hd: "map fst (seg_loop xs i [] cur start len) \<noteq> [] \<and> hd (map fst (seg_loop xs i [] cur start len)) = cur"
proof (induction xs arbitrary: i len)
  case Nil
  show ?case by simp
next
  case (Cons x xs)
  show ?case
  proof (cases "x = cur")
    case True
    then show ?thesis using Cons.IH [of "i + 1" "len + 1"] by simp
  next
    case False
    then show ?thesis
      using seg_loop_append [of xs "i + 1" "[(cur, start, len)]" x i 1] by simp
  qed
qed

lemma seg_loop_expand:
  "expand (seg_loop xs i [] cur start len) = replicate len cur @ xs"
proof (induction xs arbitrary: i cur start len)
  case Nil
  show ?case by (simp add: expand_def)
next
  case (Cons x xs)
  show ?case
  proof (cases "x = cur")
    case True
    then show ?thesis using Cons.IH [of "i + 1" cur start "len + 1"]
      by (simp add: replicate_append_same)
  next
    case False
    have "expand (seg_loop (x # xs) i [] cur start len)
          = expand ([(cur, start, len)] @ seg_loop xs (i + 1) [] x i 1)"
      using False seg_loop_append [of xs "i + 1" "[(cur, start, len)]" x i 1] by simp
    also have "\<dots> = replicate len cur @ expand (seg_loop xs (i + 1) [] x i 1)"
      by (simp add: expand_def)
    finally show ?thesis using Cons.IH [of "i + 1" x i 1] by simp
  qed
qed

lemma seg_loop_contig:
  "0 < len \<Longrightarrow> i = start + len \<Longrightarrow> contig start (seg_loop xs i [] cur start len)"
proof (induction xs arbitrary: i cur start len)
  case Nil
  then show ?case by simp
next
  case (Cons x xs)
  show ?case
  proof (cases "x = cur")
    case True
    then show ?thesis using Cons.IH [of "len + 1" "i + 1" start cur] Cons.prems by simp
  next
    case False
    then show ?thesis
      using seg_loop_append [of xs "i + 1" "[(cur, start, len)]" x i 1]
        Cons.IH [of 1 "i + 1" i x] Cons.prems by simp
  qed
qed

lemma seg_loop_distinct_adj:
  "distinct_adj (map fst (seg_loop xs i [] cur start len))"
proof (induction xs arbitrary: i cur start len)
  case Nil
  show ?case by simp
next
  case (Cons x xs)
  show ?case
  proof (cases "x = cur")
    case True
    then show ?thesis using Cons.IH [of "i + 1" cur start "len + 1"] by simp
  next
    case False
    let ?r = "seg_loop xs (i + 1) [] x i 1"
    have eq: "seg_loop (x # xs) i [] cur start len = (cur, start, len) # ?r"
      using False seg_loop_append [of xs "i + 1" "[(cur, start, len)]" x i 1] by simp
    have "map fst ?r \<noteq> []" and "hd (map fst ?r) = x"
      using seg_loop_hd [of xs "i + 1" x i 1] by simp_all
    then show ?thesis using eq Cons.IH [of "i + 1" x i 1] False
      by (cases "map fst ?r") (auto simp: distinct_adj_Cons)
  qed
qed

lemma contig_nth:
  "contig k segs \<Longrightarrow> Suc i < length segs \<Longrightarrow>
     fst (snd (segs ! i)) + snd (snd (segs ! i)) = fst (snd (segs ! Suc i))"
proof (induction segs arbitrary: k i)
  case Nil
  then show ?case by simp
next
  case (Cons a segs)
  obtain lab st ln where a: "a = (lab, st, ln)" by (cases a)
  show ?case
  proof (cases i)
    case 0
    then show ?thesis using Cons.prems a by (cases segs) auto
  next
    case (Suc j)
    then show ?thesis using Cons.IH [of "k + ln" j] Cons.prems a by simp
  qed
qed

lemma contig_pos: "contig k segs \<Longrightarrow> \<forall>sg \<in> set segs. 0 < snd (snd sg)"
proof (induction segs arbitrary: k)
  case Nil
  show ?case by simp
next
  case (Cons a segs)
  obtain lab st ln where a: "a = (lab, st, ln)" by (cases a)
  have "contig (k + ln) segs" and "0 < ln" using Cons.prems a by simp_all
  then show ?case using Cons.IH [of "k + ln"] a by simp
qed

lemma contig_hd: "contig k segs \<Longrightarrow> segs \<noteq> [] \<Longrightarrow> fst (snd (hd segs)) = k"
  by (cases segs) auto

lemma contig_sorted: "contig k segs \<Longrightarrow> sorted_wrt (<) (map (\<lambda>sg. fst (snd sg)) segs) \<and> (\<forall>sg \<in> set segs. k \<le> fst (snd sg))"
proof (induction segs arbitrary: k)
  case Nil
  show ?case by simp
next
  case (Cons a segs)
  obtain lab st ln where a: "a = (lab, st, ln)" by (cases a)
  have "contig (k + ln) segs" and "0 < ln" and "st = k" using Cons.prems a by simp_all
  then show ?case using Cons.IH [of "k + ln"] a by fastforce
qed

lemma build_segments_contig: "contig 0 (build_segments g)"
  by (cases g) (simp_all add: build_segments_def seg_loop_contig)

lemma build_segments_expand: "expand (build_segments g) = g"
proof (cases g)
  case Nil
  then show ?thesis by (simp add: build_segments_def expand_def)
next
  case (Cons x xs)
  then show ?thesis using seg_loop_expand [of xs 1 x 0 1] by (simp add: build_segments_def)
qed

lemma build_segments_distinct_adj: "distinct_adj (map fst (build_segments g))"
  by (cases g) (simp_all add: build_segments_def seg_loop_distinct_adj)

text \<open>
  C4: for every label sequence the segment list of \<open>build_segments\<close> expands back to the
  sequence, is ordered by start, starts at 0, is contiguous, has only positive lengths and
  has distinct labels on adjacent segments; the empty sequence gives the empty list.
\<close>

theorem build_segments_runs:
  "build_segments ([] :: 'a list) = []
   \<and> expand (build_segments g) = g
   \<and> sorted_wrt (<) (map (\<lambda>sg. fst (snd sg)) (build_segments g))
   \<and> (build_segments g \<noteq> [] \<longrightarrow> fst (snd (hd (build_segments g))) = 0)
   \<and> (\<forall>i. Suc i < length (build_segments g) \<longrightarrow>
           fst (snd (build_segments g ! i)) + snd (snd (build_segments g ! i))
             = fst (snd (build_segments g ! Suc i)))
   \<and> (\<forall>sg \<in> set (build_segments g). 0 < snd (snd sg))
   \<and> distinct_adj (map fst (build_segments g))"
proof -
  note c = build_segments_contig [of g]
  have e: "build_segments ([] :: 'a list) = []" by (simp add: build_segments_def)
  show ?thesis
    using e build_segments_expand [of g] contig_sorted [OF c] contig_hd [OF c]
      contig_nth [OF c] contig_pos [OF c] build_segments_distinct_adj [of g]
    by blast
qed

theorem build_segments_runs_witness:
  "build_segments [''P1'', ''P1'', ''Idle'', ''P2'', ''P2'', ''P2'']
     = [(''P1'', 0, 2), (''Idle'', 2, 1), (''P2'', 3, 3)]
   \<and> expand (build_segments [''P1'', ''P1'', ''Idle'', ''P2'', ''P2'', ''P2''])
     = [''P1'', ''P1'', ''Idle'', ''P2'', ''P2'', ''P2'']
   \<and> distinct_adj (map fst (build_segments [''P1'', ''P1'', ''Idle'', ''P2'', ''P2'', ''P2'']))"
proof -
  have v: "build_segments [''P1'', ''P1'', ''Idle'', ''P2'', ''P2'', ''P2'']
     = [(''P1'', 0, 2), (''Idle'', 2, 1), (''P2'', 3, 3)]"
    by (simp add: build_segments_def)
  have r: "expand (build_segments [''P1'', ''P1'', ''Idle'', ''P2'', ''P2'', ''P2''])
     = [''P1'', ''P1'', ''Idle'', ''P2'', ''P2'', ''P2'']"
    and d: "distinct_adj (map fst (build_segments [''P1'', ''P1'', ''Idle'', ''P2'', ''P2'', ''P2'']))"
    using build_segments_runs [of "[''P1'', ''P1'', ''Idle'', ''P2'', ''P2'', ''P2'']"]
    by blast+
  show ?thesis by (intro conjI) (rule v, rule r, rule d)
qed

section \<open>The loop as an iteration of its body\<close>

lemma loop_Some_while:
  assumes "srtf_loop n s = Some y"
  shows "while_option (running n) srtf_step s = Some y"
proof (rule srtf_loop.raw_induct
    [where P = "\<lambda>n s y. while_option (running n) srtf_step s = Some y", OF _ assms])
  fix f n s y
  assume ih: "\<And>n s y. f n s = Some y \<Longrightarrow> while_option (running n) srtf_step s = Some y"
    and eq: "(if completed s < n then f n (srtf_step s) else Some s) = Some y"
  show "while_option (running n) srtf_step s = Some y"
  proof (cases "completed s < n")
    case True
    then have "while_option (running n) srtf_step (srtf_step s) = Some y"
      using ih eq by simp
    then show ?thesis using True by (subst while_option_unfold) (simp add: running_def)
  next
    case False
    then show ?thesis using eq by (subst while_option_unfold) (simp add: running_def)
  qed
qed

lemma loop_iterate:
  "\<not> running n ((srtf_step ^^ k) s) \<Longrightarrow> srtf_loop n s = while_option (running n) srtf_step s"
proof (induction k arbitrary: s)
  case 0
  then show ?case
    by (subst srtf_loop.simps, subst while_option_unfold) (simp add: running_def)
next
  case (Suc k)
  show ?case
  proof (cases "running n s")
    case True
    have "\<not> running n ((srtf_step ^^ k) (srtf_step s))"
      using Suc.prems by (simp add: funpow_swap1)
    then have "srtf_loop n (srtf_step s) = while_option (running n) srtf_step (srtf_step s)"
      by (rule Suc.IH)
    then show ?thesis using True
      by (subst srtf_loop.simps, subst while_option_unfold) (simp add: running_def)
  next
    case False
    then show ?thesis
      by (subst srtf_loop.simps, subst while_option_unfold) (simp add: running_def)
  qed
qed

lemma srtf_loop_while: "srtf_loop n s = while_option (running n) srtf_step s"
proof (cases "\<exists>k. \<not> running n ((srtf_step ^^ k) s)")
  case True
  then show ?thesis using loop_iterate by blast
next
  case False
  then have w: "while_option (running n) srtf_step s = None"
    by (simp add: while_option_def)
  have "srtf_loop n s = None"
  proof (cases "srtf_loop n s")
    case None
    then show ?thesis .
  next
    case (Some y)
    then show ?thesis using loop_Some_while [of n s y] w by simp
  qed
  then show ?thesis using w by simp
qed

lemma scan_fold:
  "m \<le> length ps \<Longrightarrow>
   (case foldl (scan_step ps rem now) (None, B) [0 ..< m] of
      (None, mr) \<Rightarrow> mr = B \<and> (\<forall>j<m. runnable ps rem now j \<longrightarrow> B \<le> rem ! j)
    | (Some i, mr) \<Rightarrow> i < m \<and> runnable ps rem now i \<and> mr = rem ! i \<and> rem ! i < B
         \<and> (\<forall>j<m. runnable ps rem now j \<longrightarrow> rem ! i \<le> rem ! j)
         \<and> (\<forall>j<i. runnable ps rem now j \<longrightarrow> rem ! i < rem ! j))"
proof (induction m)
  case 0
  show ?case by simp
next
  case (Suc m)
  obtain idx mr where f: "foldl (scan_step ps rem now) (None, B) [0 ..< m] = (idx, mr)"
    by (cases "foldl (scan_step ps rem now) (None, B) [0 ..< m]")
  have ih: "case (idx, mr) of
      (None, mr) \<Rightarrow> mr = B \<and> (\<forall>j<m. runnable ps rem now j \<longrightarrow> B \<le> rem ! j)
    | (Some i, mr) \<Rightarrow> i < m \<and> runnable ps rem now i \<and> mr = rem ! i \<and> rem ! i < B
         \<and> (\<forall>j<m. runnable ps rem now j \<longrightarrow> rem ! i \<le> rem ! j)
         \<and> (\<forall>j<i. runnable ps rem now j \<longrightarrow> rem ! i < rem ! j)"
    using Suc f by simp
  have st: "foldl (scan_step ps rem now) (None, B) [0 ..< Suc m] = scan_step ps rem now (idx, mr) m"
    using f by simp
  show ?case
  proof (cases idx)
    case None
    then show ?thesis unfolding st using ih
      by (auto simp: scan_step_def runnable_def less_Suc_eq)
  next
    case (Some i)
    then show ?thesis unfolding st using ih
      by (auto simp: scan_step_def runnable_def less_Suc_eq)
  qed
qed

lemma select_Some:
  assumes "select ps rem now = Some i"
  shows "i < length ps" and "runnable ps rem now i" and "rem ! i < 10 ^ 9"
    and "\<And>j. j < length ps \<Longrightarrow> runnable ps rem now j \<Longrightarrow> rem ! i \<le> rem ! j"
    and "\<And>j. j < i \<Longrightarrow> runnable ps rem now j \<Longrightarrow> rem ! i < rem ! j"
proof -
  obtain mr where f: "foldl (scan_step ps rem now) (None, 10 ^ 9) [0 ..< length ps] = (Some i, mr)"
    using assms by (cases "foldl (scan_step ps rem now) (None, 10 ^ 9) [0 ..< length ps]")
      (simp add: select_def)
  note s = scan_fold [where m = "length ps" and ps = ps and rem = rem and now = now and B = "10 ^ 9",
      unfolded f, simplified]
  show "i < length ps" using s by simp
  show "runnable ps rem now i" using s by simp
  show "rem ! i < 10 ^ 9" using s by simp
  show "\<And>j. j < length ps \<Longrightarrow> runnable ps rem now j \<Longrightarrow> rem ! i \<le> rem ! j" using s by simp
  show "\<And>j. j < i \<Longrightarrow> runnable ps rem now j \<Longrightarrow> rem ! i < rem ! j" using s by simp
qed

lemma select_None:
  assumes "select ps rem now = None" and "j < length ps" and "runnable ps rem now j"
  shows "10 ^ 9 \<le> rem ! j"
proof -
  obtain mr where f: "foldl (scan_step ps rem now) (None, 10 ^ 9) [0 ..< length ps] = (None, mr)"
    using assms(1) by (cases "foldl (scan_step ps rem now) (None, 10 ^ 9) [0 ..< length ps]")
      (simp add: select_def)
  note s = scan_fold [where m = "length ps" and ps = ps and rem = rem and now = now and B = "10 ^ 9",
      unfolded f, simplified]
  show ?thesis using s assms(2,3) by simp
qed

lemma step_idle:
  "select (procs s) (remaining s) (tick s) = None \<Longrightarrow>
   srtf_step s = s\<lparr>gantt := gantt s @ [''Idle''], tick := tick s + 1\<rparr>"
  by (simp add: srtf_step_def)

lemma step_run:
  assumes "select (procs s) (remaining s) (tick s) = Some i" and "i < length (remaining s)"
  shows "srtf_step s =
     s\<lparr>gantt := gantt s @ [pid (procs s ! i)],
       remaining := (remaining s)[i := remaining s ! i - 1],
       tick := tick s + 1,
       completed := (if remaining s ! i = 1 then completed s + 1 else completed s),
       procs := (if remaining s ! i = 1
                 then (procs s)[i := finish_proc (tick s + 1) (procs s ! i)] else procs s)\<rparr>"
  using assms by (simp add: srtf_step_def Let_def)


lemma sum_list_upd:
  fixes xs :: "int list"
  shows "i < length xs \<Longrightarrow> sum_list (xs[i := v]) = sum_list xs - xs ! i + v"
proof (induction xs arbitrary: i)
  case Nil
  then show ?case by simp
next
  case (Cons x xs)
  then show ?case by (cases i) simp_all
qed

lemma zeros_upd:
  fixes xs :: "int list"
  shows "i < length xs \<Longrightarrow> xs ! i \<noteq> 0 \<Longrightarrow>
    length (filter (\<lambda>r. r = 0) (xs[i := v]))
      = length (filter (\<lambda>r. r = 0) xs) + (if v = 0 then 1 else 0)"
proof (induction xs arbitrary: i)
  case Nil
  then show ?case by simp
next
  case (Cons x xs)
  show ?case
  proof (cases i)
    case 0
    then show ?thesis using Cons.prems by simp
  next
    case (Suc k)
    then show ?thesis using Cons.prems Cons.IH [of k] by (cases "v = 0") simp_all
  qed
qed

lemma finish_proc_keys: "same_keys (finish_proc f p) p"
  by (simp add: finish_proc_def Let_def same_keys_def)

lemma finish_proc_vals:
  "ct (finish_proc f p) = Some f"
  "tat (finish_proc f p) = Some (f - arr p)"
  "wt (finish_proc f p) = Some (max 0 (f - arr p - bur p))"
  "arr (finish_proc f p) = arr p" "bur (finish_proc f p) = bur p"
  by (simp_all add: finish_proc_def Let_def arr_def bur_def max_def)

lemma same_keys_arr: "same_keys p q \<Longrightarrow> arr p = arr q \<and> bur p = bur q \<and> pid p = pid q"
  by (simp add: same_keys_def arr_def bur_def)

lemma runnable_shape:
  "inv_shape ps0 s \<Longrightarrow> i < length ps0 \<Longrightarrow>
   runnable (procs s) (remaining s) (tick s) i = (arr (ps0 ! i) \<le> tick s \<and> 0 < remaining s ! i)"
  by (simp add: inv_shape_def runnable_def same_keys_def arr_def)

lemma step_cases [consumes 1, case_names idle run]:
  assumes sh: "inv_shape ps0 s"
    and idle: "select (procs s) (remaining s) (tick s) = None \<Longrightarrow>
        srtf_step s = s\<lparr>gantt := gantt s @ [''Idle''], tick := tick s + 1\<rparr> \<Longrightarrow> thesis"
    and run: "\<And>i. select (procs s) (remaining s) (tick s) = Some i \<Longrightarrow> i < length ps0 \<Longrightarrow>
        arr (ps0 ! i) \<le> tick s \<Longrightarrow> 0 < remaining s ! i \<Longrightarrow> remaining s ! i < 10 ^ 9 \<Longrightarrow>
        srtf_step s =
          s\<lparr>gantt := gantt s @ [pid (procs s ! i)],
            remaining := (remaining s)[i := remaining s ! i - 1],
            tick := tick s + 1,
            completed := (if remaining s ! i = 1 then completed s + 1 else completed s),
            procs := (if remaining s ! i = 1
                      then (procs s)[i := finish_proc (tick s + 1) (procs s ! i)] else procs s)\<rparr>
        \<Longrightarrow> thesis"
  shows thesis
proof (cases "select (procs s) (remaining s) (tick s)")
  case None
  then show ?thesis using idle step_idle by blast
next
  case (Some i)
  have l: "i < length ps0" using select_Some(1) [OF Some] sh by (simp add: inv_shape_def)
  have r: "arr (ps0 ! i) \<le> tick s \<and> 0 < remaining s ! i"
    using select_Some(2) [OF Some] runnable_shape [OF sh l] by simp
  have b: "remaining s ! i < 10 ^ 9" using select_Some(3) [OF Some] .
  have "i < length (remaining s)" using l sh by (simp add: inv_shape_def)
  then show ?thesis using run [OF Some l _ _ b] r step_run [OF Some] by blast
qed

lemma inv_shape_step:
  assumes sh: "inv_shape ps0 s"
  shows "inv_shape ps0 (srtf_step s)"
using sh proof (cases rule: step_cases)
  case idle
  show ?thesis unfolding idle(2) using sh by (simp add: inv_shape_def)
next
  case (run i)
  have k: "same_keys (finish_proc (tick s + 1) (procs s ! i)) (ps0 ! i)"
    using finish_proc_keys [of "tick s + 1" "procs s ! i"] sh run(2)
    by (simp add: inv_shape_def same_keys_def)
  show ?thesis unfolding run(6) using sh k run(2)
    by (auto simp: inv_shape_def nth_list_update)
qed

lemma inv_rem_step:
  assumes sh: "inv_shape ps0 s" and ir: "inv_rem ps0 s"
  shows "inv_rem ps0 (srtf_step s)"
using sh proof (cases rule: step_cases)
  case idle
  then show ?thesis using ir by (simp add: inv_rem_def)
next
  case (run i)
  have li: "i < length (remaining s)" using run(2) sh by (simp add: inv_shape_def)
  have nz: "remaining s ! i \<noteq> 0" using run(4) by simp
  have z: "length (filter (\<lambda>r. r = 0) ((remaining s)[i := remaining s ! i - 1]))
      = length (filter (\<lambda>r. r = 0) (remaining s)) + (if remaining s ! i - 1 = 0 then 1 else 0)"
    by (rule zeros_upd [OF li nz])
  have b: "\<forall>j<length ps0. 0 \<le> (remaining s)[i := remaining s ! i - 1] ! j
        \<and> (remaining s)[i := remaining s ! i - 1] ! j \<le> bur (ps0 ! j)"
  proof (intro allI impI)
    fix j assume j: "j < length ps0"
    have "0 \<le> remaining s ! j \<and> remaining s ! j \<le> bur (ps0 ! j)"
      using ir j by (simp add: inv_rem_def)
    then show "0 \<le> (remaining s)[i := remaining s ! i - 1] ! j
        \<and> (remaining s)[i := remaining s ! i - 1] ! j \<le> bur (ps0 ! j)"
      using run(4) li by (cases "j = i") simp_all
  qed
  show ?thesis unfolding run(6) using z b ir by (simp add: inv_rem_def)
qed

lemma inv_time_step:
  assumes sh: "inv_shape ps0 s" and ir: "inv_rem ps0 s" and it: "inv_time ps0 s"
  shows "inv_time ps0 (srtf_step s)"
using sh proof (cases rule: step_cases)
  case idle
  show ?thesis unfolding idle(2) using it by (fastforce simp: inv_time_def)
next
  case (run i)
  have li: "i < length (remaining s)" using run(2) sh by (simp add: inv_shape_def)
  have "\<forall>j<length ps0. (remaining s)[i := remaining s ! i - 1] ! j < bur (ps0 ! j) \<longrightarrow>
       arr (ps0 ! j) + (bur (ps0 ! j) - (remaining s)[i := remaining s ! i - 1] ! j) \<le> tick s + 1"
  proof (intro allI impI)
    fix j assume j: "j < length ps0"
      and lt: "(remaining s)[i := remaining s ! i - 1] ! j < bur (ps0 ! j)"
    have old: "remaining s ! j < bur (ps0 ! j) \<longrightarrow>
       arr (ps0 ! j) + (bur (ps0 ! j) - remaining s ! j) \<le> tick s"
      using it j by (simp add: inv_time_def)
    have ub: "remaining s ! j \<le> bur (ps0 ! j)" using ir j by (simp add: inv_rem_def)
    show "arr (ps0 ! j) + (bur (ps0 ! j) - (remaining s)[i := remaining s ! i - 1] ! j) \<le> tick s + 1"
    proof (cases "j = i")
      case True
      then show ?thesis using old ub run(3) li by (cases "remaining s ! i < bur (ps0 ! i)") simp_all
    next
      case False
      then show ?thesis using old lt by simp
    qed
  qed
  then show ?thesis unfolding run(6) by (simp add: inv_time_def)
qed

lemma finished_mono: "finished p now \<Longrightarrow> now \<le> now' \<Longrightarrow> finished p now'"
  by (auto simp: finished_def)

lemma inv_fin_step:
  assumes sh: "inv_shape ps0 s" and ir: "inv_rem ps0 s" and it: "inv_time ps0 s"
    and ifn: "inv_fin ps0 s"
  shows "inv_fin ps0 (srtf_step s)"
using sh proof (cases rule: step_cases)
  case idle
  show ?thesis unfolding idle(2) using ifn finished_mono [of _ "tick s" "tick s + 1"]
    by (simp add: inv_fin_def)
next
  case (run i)
  have li: "i < length (remaining s)" and lp: "i < length (procs s)"
    using run(2) sh by (simp_all add: inv_shape_def)
  have ki: "arr (procs s ! i) = arr (ps0 ! i)" "bur (procs s ! i) = bur (ps0 ! i)"
    using sh run(2) same_keys_arr [of "procs s ! i" "ps0 ! i"] by (simp_all add: inv_shape_def)
  have ub: "remaining s ! i \<le> bur (ps0 ! i)" using ir run(2) by (simp add: inv_rem_def)
  have ti: "remaining s ! i < bur (ps0 ! i) \<longrightarrow>
       arr (ps0 ! i) + (bur (ps0 ! i) - remaining s ! i) \<le> tick s"
    using it run(2) by (simp add: inv_time_def)
  have fi: "remaining s ! i = 1 \<Longrightarrow> finished (finish_proc (tick s + 1) (procs s ! i)) (tick s + 1)"
  proof -
    assume one: "remaining s ! i = 1"
    have "arr (ps0 ! i) + bur (ps0 ! i) \<le> tick s + 1"
      using ti ub run(3) one by (cases "remaining s ! i < bur (ps0 ! i)") simp_all
    then show ?thesis by (simp add: finished_def finish_proc_vals ki)
  qed
  have "\<forall>j<length ps0. (remaining s)[i := remaining s ! i - 1] ! j = 0 \<longrightarrow>
      finished ((if remaining s ! i = 1
                 then (procs s)[i := finish_proc (tick s + 1) (procs s ! i)] else procs s) ! j)
        (tick s + 1)"
  proof (intro allI impI)
    fix j assume j: "j < length ps0"
      and z: "(remaining s)[i := remaining s ! i - 1] ! j = 0"
    show "finished ((if remaining s ! i = 1
                 then (procs s)[i := finish_proc (tick s + 1) (procs s ! i)] else procs s) ! j)
        (tick s + 1)"
    proof (cases "j = i")
      case True
      then have "remaining s ! i = 1" using z li by simp
      then show ?thesis using fi True lp by simp
    next
      case False
      then have "remaining s ! j = 0" using z by simp
      then have "finished (procs s ! j) (tick s)" using ifn j by (simp add: inv_fin_def)
      then have "finished (procs s ! j) (tick s + 1)" by (rule finished_mono) simp
      then show ?thesis using False by simp
    qed
  qed
  then show ?thesis unfolding run(6) by (simp add: inv_fin_def)
qed

lemma inv_step: "inv ps0 s \<Longrightarrow> inv ps0 (srtf_step s)"
  using inv_shape_step inv_rem_step inv_time_step inv_fin_step by (simp add: inv_def)


lemma max_arrival_ge: "p \<in> set ps \<Longrightarrow> arr p \<le> max_arrival ps"
  by (induction ps) (auto simp: max_arrival_def)

lemma max_arrival_nonneg: "0 \<le> max_arrival ps"
  by (induction ps) (auto simp: max_arrival_def)

lemma filter_all: "length xs \<le> length (filter P xs) \<Longrightarrow> x \<in> set xs \<Longrightarrow> P x"
  using length_filter_less [of x xs P] by fastforce

lemma exit_all_zero:
  assumes "inv ps0 s" and "\<not> running (length ps0) s" and "i < length ps0"
  shows "remaining s ! i = 0"
proof -
  have l: "length (remaining s) = length ps0" using assms(1) by (simp add: inv_def inv_shape_def)
  have "length (remaining s) \<le> length (filter (\<lambda>r. r = 0) (remaining s))"
    using assms(1,2) l by (simp add: inv_def inv_rem_def running_def)
  moreover have "remaining s ! i \<in> set (remaining s)" using l assms(3) by simp
  ultimately show ?thesis by (rule filter_all)
qed

lemma running_some_left:
  assumes "inv ps0 s" and "running (length ps0) s"
  shows "\<exists>j<length ps0. 0 < remaining s ! j"
proof (rule ccontr)
  assume c: "\<not> (\<exists>j<length ps0. 0 < remaining s ! j)"
  have l: "length (remaining s) = length ps0" using assms(1) by (simp add: inv_def inv_shape_def)
  have "\<forall>j<length ps0. remaining s ! j = 0"
  proof (intro allI impI)
    fix j assume "j < length ps0"
    then show "remaining s ! j = 0" using c assms(1) by (fastforce simp: inv_def inv_rem_def)
  qed
  then have "\<forall>r \<in> set (remaining s). r = 0" using l by (simp add: all_set_conv_all_nth)
  then have "filter (\<lambda>r. r = 0) (remaining s) = remaining s" by simp
  then have "completed s = length ps0" using assms(1) l by (simp add: inv_def inv_rem_def)
  then show False using assms(2) by (simp add: running_def)
qed

lemma rem_nonneg_set: "inv ps0 s \<Longrightarrow> \<forall>r \<in> set (remaining s). 0 \<le> r"
  by (simp add: inv_def inv_shape_def inv_rem_def all_set_conv_all_nth)

lemma init_remaining: "remaining (init_state ps) = map bur ps"
  by (simp add: init_state_def bur_def)

lemma inv_init:
  assumes "\<forall>p \<in> set ps0. 0 < bur p"
  shows "inv ps0 (init_state ps0)"
proof -
  have z: "filter (\<lambda>r. r = 0) (map (\<lambda>p. the (burst p)) ps0) = []"
    using assms by (auto simp: filter_empty_conv bur_def)
  have "inv_shape ps0 (init_state ps0)" by (simp add: inv_shape_def init_state_def same_keys_def)
  moreover have "inv_rem ps0 (init_state ps0)"
    using assms z by (simp add: inv_rem_def init_state_def bur_def less_imp_le)
  moreover have "inv_time ps0 (init_state ps0)" by (simp add: inv_time_def init_state_def bur_def)
  moreover have "inv_fin ps0 (init_state ps0)"
  proof -
    have "remaining (init_state ps0) ! i \<noteq> 0" if "i < length ps0" for i
    proof -
      have "ps0 ! i \<in> set ps0" using that by simp
      then have "0 < bur (ps0 ! i)" using assms by blast
      then show ?thesis using that by (simp add: init_remaining)
    qed
    then show ?thesis by (simp add: inv_fin_def)
  qed
  ultimately show ?thesis by (simp add: inv_def)
qed

lemma inv_bound_init: "inv_bound ps0 (init_state ps0)"
  using max_arrival_nonneg [of ps0]
  by (simp add: inv_bound_def init_remaining sum_bursts_def) (simp add: init_state_def)

text \<open>One pass of a running loop keeps the bound and makes the measure smaller.\<close>

lemma bound_step:
  assumes i: "inv ps0 s" and b: "inv_bound ps0 s" and r: "running (length ps0) s"
    and small: "\<forall>p \<in> set ps0. bur p < 10 ^ 9"
  shows "inv_bound ps0 (srtf_step s)
    \<and> nat (sum_list (remaining (srtf_step s))) + nat (max_arrival ps0 - tick (srtf_step s))
        < nat (sum_list (remaining s)) + nat (max_arrival ps0 - tick s)"
proof -
  have sh: "inv_shape ps0 s" using i by (simp add: inv_def)
  have l: "length (remaining s) = length ps0" using sh by (simp add: inv_shape_def)
  have lp: "length (procs s) = length ps0" using sh by (simp add: inv_shape_def)
  from sh show ?thesis
  proof (cases rule: step_cases)
    case idle
    obtain j where j: "j < length ps0" "0 < remaining s ! j"
      using running_some_left [OF i r] by blast
    have "remaining s ! j \<le> bur (ps0 ! j)" using i j(1) by (simp add: inv_def inv_rem_def)
    moreover have "bur (ps0 ! j) < 10 ^ 9" using small j(1) by simp
    ultimately have "\<not> runnable (procs s) (remaining s) (tick s) j"
      using select_None [OF idle(1), of j] j(1) lp by fastforce
    then have "tick s < arr (ps0 ! j)" using runnable_shape [OF sh j(1)] j(2) by simp
    moreover have "arr (ps0 ! j) \<le> max_arrival ps0" using j(1) by (simp add: max_arrival_ge)
    ultimately have t: "tick s < max_arrival ps0" by simp
    show ?thesis unfolding idle(2) using b t by (simp add: inv_bound_def)
  next
    case (run k)
    have kl: "k < length (remaining s)" using run(2) l by simp
    have sm: "sum_list ((remaining s)[k := remaining s ! k - 1]) = sum_list (remaining s) - 1"
      using sum_list_upd [OF kl, of "remaining s ! k - 1"] by simp
    have "inv ps0 (srtf_step s)" using i by (rule inv_step)
    then have "0 \<le> sum_list (remaining (srtf_step s))"
      using rem_nonneg_set sum_list_nonneg by blast
    then have nn: "0 \<le> sum_list (remaining s) - 1" unfolding run(6) using sm by simp
    show ?thesis unfolding run(6) using b sm nn by (simp add: inv_bound_def)
  qed
qed

lemma loop_terminates:
  assumes pos: "\<forall>p \<in> set ps0. 0 < bur p" and small: "\<forall>p \<in> set ps0. bur p < 10 ^ 9"
  shows "\<exists>t. srtf_loop (length ps0) (init_state ps0) = Some t"
proof -
  have "\<exists>t. while_option (running (length ps0)) srtf_step (init_state ps0) = Some t"
  proof (rule measure_while_option_Some
      [where P = "\<lambda>s. inv ps0 s \<and> inv_bound ps0 s"
         and f = "\<lambda>s. nat (sum_list (remaining s)) + nat (max_arrival ps0 - tick s)"])
    fix s assume "inv ps0 s \<and> inv_bound ps0 s" and "running (length ps0) s"
    then show "(inv ps0 (srtf_step s) \<and> inv_bound ps0 (srtf_step s))
      \<and> nat (sum_list (remaining (srtf_step s))) + nat (max_arrival ps0 - tick (srtf_step s))
        < nat (sum_list (remaining s)) + nat (max_arrival ps0 - tick s)"
      using inv_step bound_step small by blast
  next
    show "inv ps0 (init_state ps0) \<and> inv_bound ps0 (init_state ps0)"
      using inv_init [OF pos] inv_bound_init by simp
  qed
  then show ?thesis by (simp add: srtf_loop_while)
qed

lemma loop_inv:
  assumes "srtf_loop (length ps0) (init_state ps0) = Some t" and "\<forall>p \<in> set ps0. 0 < bur p"
  shows "inv ps0 t" and "\<not> running (length ps0) t"
proof -
  have w: "while_option (running (length ps0)) srtf_step (init_state ps0) = Some t"
    using assms(1) by (simp add: srtf_loop_while)
  show "inv ps0 t"
    by (rule while_option_rule [where P = "inv ps0", OF _ w]) (simp_all add: inv_step inv_init assms(2))
  show "\<not> running (length ps0) t" using while_option_stop [OF w] .
qed

lemma loop_bound:
  assumes "srtf_loop (length ps0) (init_state ps0) = Some t" and "\<forall>p \<in> set ps0. 0 < bur p"
    and small: "\<forall>p \<in> set ps0. bur p < 10 ^ 9"
  shows "int (length (gantt t)) \<le> sum_bursts ps0 + max_arrival ps0"
proof -
  have w: "while_option (running (length ps0)) srtf_step (init_state ps0) = Some t"
    using assms(1) by (simp add: srtf_loop_while)
  have "inv ps0 t \<and> inv_bound ps0 t"
  proof (rule while_option_rule [where P = "\<lambda>s. inv ps0 s \<and> inv_bound ps0 s", OF _ w])
    fix s assume "inv ps0 s \<and> inv_bound ps0 s" and "running (length ps0) s"
    then show "inv ps0 (srtf_step s) \<and> inv_bound ps0 (srtf_step s)"
      using inv_step bound_step small by blast
  next
    show "inv ps0 (init_state ps0) \<and> inv_bound ps0 (init_state ps0)"
      using inv_init [OF assms(2)] inv_bound_init by simp
  qed
  moreover have "0 \<le> sum_list (remaining t)"
    using calculation rem_nonneg_set sum_list_nonneg by blast
  ultimately show ?thesis by (simp add: inv_bound_def inv_def inv_shape_def)
qed


section \<open>The whole function on well-formed input\<close>

lemma valid_proc_keys: "valid_proc p \<Longrightarrow> arrival p \<noteq> None \<and> burst p \<noteq> None \<and> 0 \<le> arr p \<and> 0 < bur p"
  by (auto simp: valid_proc_def arr_def bur_def split: option.splits)

lemma valid_alias: "valid_proc p \<Longrightarrow> alias_keys p = p"
  using valid_proc_keys [of p] by (auto simp: alias_keys_def)

lemma valid_alias_map: "list_all valid_proc ps \<Longrightarrow> map alias_keys ps = ps"
  by (induction ps) (simp_all add: valid_alias)

lemma by_arrival_set [simp]: "set (by_arrival ps) = set ps"
  by (simp add: by_arrival_def)

lemma by_arrival_length [simp]: "length (by_arrival ps) = length ps"
  by (simp add: by_arrival_def)

lemma srtf_valid:
  assumes v: "list_all valid_proc ps" and ne: "ps \<noteq> []"
  shows "srtf_scheduling ps =
    (case srtf_loop (length ps) (init_state (by_arrival ps)) of
       None \<Rightarrow> None
     | Some s \<Rightarrow>
         Some (Inr (procs s,
                    of_int (sum_list (map (\<lambda>p. get_or_0 (wt p)) (procs s))) / of_nat (length ps),
                    of_int (sum_list (map (\<lambda>p. get_or_0 (tat p)) (procs s))) / of_nat (length ps),
                    gantt s)))"
proof -
  have a: "\<not> list_ex (\<lambda>p. arrival p = None) ps"
    using v valid_proc_keys by (auto simp: list_ex_iff list_all_iff)
  have b: "\<not> list_ex (\<lambda>p. burst p = None) (sort_key (\<lambda>x. the (arrival x)) ps)"
    using v valid_proc_keys by (auto simp: list_ex_iff list_all_iff)
  show ?thesis
    using ne a b
    by (simp add: srtf_scheduling_def valid_alias_map [OF v] by_arrival_def Let_def
        split: option.splits)
qed

lemma valid_pos: "list_all valid_proc ps \<Longrightarrow> \<forall>p \<in> set (by_arrival ps). 0 < bur p"
  using valid_proc_keys by (auto simp: list_all_iff)

lemma srtf_result:
  assumes v: "list_all valid_proc ps" and ne: "ps \<noteq> []"
    and r: "srtf_scheduling ps = Some (Inr (recs, avg_wt, avg_tat, trace))"
  obtains t where "srtf_loop (length (by_arrival ps)) (init_state (by_arrival ps)) = Some t"
    and "recs = procs t" and "trace = gantt t"
    and "inv (by_arrival ps) t" and "\<not> running (length (by_arrival ps)) t"
proof -
  obtain t where t: "srtf_loop (length ps) (init_state (by_arrival ps)) = Some t"
    using r srtf_valid [OF v ne] by (cases "srtf_loop (length ps) (init_state (by_arrival ps))") simp_all
  have l: "srtf_loop (length (by_arrival ps)) (init_state (by_arrival ps)) = Some t" using t by simp
  have "recs = procs t" and "trace = gantt t" using r t srtf_valid [OF v ne] by simp_all
  then show ?thesis using that l loop_inv [OF l valid_pos [OF v]] by blast
qed

lemma srtf_returns:
  assumes v: "list_all valid_proc ps" and small: "list_all (\<lambda>p. bur p < 10 ^ 9) ps"
  shows "\<exists>recs avg_wt avg_tat trace. srtf_scheduling ps = Some (Inr (recs, avg_wt, avg_tat, trace))"
proof (cases "ps = []")
  case True
  then show ?thesis by (simp add: srtf_scheduling_def)
next
  case False
  have "\<forall>p \<in> set (by_arrival ps). bur p < 10 ^ 9" using small by (simp add: list_all_iff)
  then obtain t where "srtf_loop (length (by_arrival ps)) (init_state (by_arrival ps)) = Some t"
    using loop_terminates [OF valid_pos [OF v]] by blast
  then show ?thesis using srtf_valid [OF v False] by simp
qed

text \<open>A process whose burst reaches the scan's initial minimum is never selected.\<close>

lemma loop_stuck:
  assumes pos: "\<forall>p \<in> set ps0. 0 < bur p" and i0: "i0 < length ps0"
    and big: "10 ^ 9 \<le> bur (ps0 ! i0)"
  shows "srtf_loop (length ps0) (init_state ps0) = None"
proof (cases "srtf_loop (length ps0) (init_state ps0)")
  case None
  then show ?thesis .
next
  case (Some t)
  then have w: "while_option (running (length ps0)) srtf_step (init_state ps0) = Some t"
    by (simp add: srtf_loop_while)
  have q: "inv ps0 t \<and> remaining t ! i0 = bur (ps0 ! i0)"
  proof (rule while_option_rule
      [where P = "\<lambda>s. inv ps0 s \<and> remaining s ! i0 = bur (ps0 ! i0)", OF _ w])
    fix s assume a: "inv ps0 s \<and> remaining s ! i0 = bur (ps0 ! i0)"
    then have sh: "inv_shape ps0 s" by (simp add: inv_def)
    from sh have "remaining (srtf_step s) ! i0 = remaining s ! i0"
    proof (cases rule: step_cases)
      case idle
      show ?thesis unfolding idle(2) by simp
    next
      case (run k)
      have "k \<noteq> i0" using run(5) a big by auto
      then show ?thesis unfolding run(6) by simp
    qed
    then show "inv ps0 (srtf_step s) \<and> remaining (srtf_step s) ! i0 = bur (ps0 ! i0)"
      using a inv_step by simp
  next
    show "inv ps0 (init_state ps0) \<and> remaining (init_state ps0) ! i0 = bur (ps0 ! i0)"
      using inv_init [OF pos] i0 by (simp add: init_remaining)
  qed
  have "\<not> running (length ps0) t" using while_option_stop [OF w] .
  then have "remaining t ! i0 = 0" using exit_all_zero q i0 by blast
  then show ?thesis using q big by simp
qed

lemma srtf_diverges:
  assumes v: "list_all valid_proc ps" and big: "list_ex (\<lambda>p. 10 ^ 9 \<le> bur p) ps"
  shows "srtf_scheduling ps = None"
proof -
  have ne: "ps \<noteq> []" using big by auto
  obtain p where "p \<in> set (by_arrival ps)" "10 ^ 9 \<le> bur p"
    using big by (auto simp: list_ex_iff)
  then obtain i0 where "i0 < length (by_arrival ps)" "10 ^ 9 \<le> bur (by_arrival ps ! i0)"
    by (metis in_set_conv_nth)
  then have "srtf_loop (length (by_arrival ps)) (init_state (by_arrival ps)) = None"
    using loop_stuck [OF valid_pos [OF v]] by blast
  then show ?thesis using srtf_valid [OF v ne] by simp
qed

section \<open>Bursts that reach the scan's initial minimum\<close>

text \<open>
  C3: the loop is claimed to terminate, within (sum of bursts + maximum arrival) ticks, on
  every list of descriptors with non-negative arrival and positive burst. The scan starts
  from \<open>min_rem = 10**9\<close> and selects only a smaller remaining time, so a process whose
  burst is \<open>10**9\<close> is never selected and the loop never ends: the call does not return.
  For bursts below that constant the loop does end within the bound
  (\<open>loop_terminates\<close>, \<open>loop_bound\<close>, and \<open>srtf_terminates_within_bound\<close> for the whole
  function).
\<close>

theorem srtf_large_burst_never_returns:
  "srtf_scheduling [mk_proc ''P1'' 0 1000000000] = None"
  by (rule srtf_diverges) (simp_all add: valid_proc_def mk_proc_def bur_def)

section \<open>The states of a run, tick by tick\<close>

lemma sched_Suc: "sched_state ps0 (Suc k) = srtf_step (sched_state ps0 k)"
  by (simp add: sched_state_def)

lemma sched_inv:
  assumes "\<forall>p \<in> set ps0. 0 < bur p"
  shows "inv ps0 (sched_state ps0 k)"
proof (induction k)
  case 0
  show ?case using inv_init [OF assms] by (simp add: sched_state_def)
next
  case (Suc k)
  then show ?case by (simp add: sched_Suc inv_step)
qed

lemma gantt_step:
  assumes sh: "inv_shape ps0 s"
  shows "gantt (srtf_step s)
    = gantt s @ [label_of ps0 (select (procs s) (remaining s) (tick s))]"
using sh proof (cases rule: step_cases)
  case idle
  show ?thesis unfolding idle(2) using idle(1) by (simp add: label_of_def)
next
  case (run i)
  have "pid (procs s ! i) = pid (ps0 ! i)"
    using sh run(2) by (simp add: inv_shape_def same_keys_def)
  then show ?thesis unfolding run(6) using run(1) by (simp add: label_of_def)
qed

lemma sched_gantt_Suc:
  assumes "\<forall>p \<in> set ps0. 0 < bur p"
  shows "gantt (sched_state ps0 (Suc k)) = gantt (sched_state ps0 k) @ [label_of ps0 (executes ps0 k)]"
proof -
  have "inv_shape ps0 (sched_state ps0 k)" using sched_inv [OF assms] by (simp add: inv_def)
  then show ?thesis using gantt_step by (simp add: sched_Suc executes_def Let_def)
qed

lemma sched_length:
  assumes "\<forall>p \<in> set ps0. 0 < bur p"
  shows "length (gantt (sched_state ps0 k)) = k"
proof (induction k)
  case 0
  show ?case by (simp add: sched_state_def init_state_def)
next
  case (Suc k)
  then show ?case using sched_gantt_Suc [OF assms] by simp
qed

lemma sched_tick:
  assumes "\<forall>p \<in> set ps0. 0 < bur p"
  shows "tick (sched_state ps0 k) = int k"
  using sched_inv [OF assms, of k] sched_length [OF assms, of k] by (simp add: inv_def inv_shape_def)

lemma sched_gantt_nth:
  assumes pos: "\<forall>p \<in> set ps0. 0 < bur p"
  shows "j < k \<Longrightarrow> gantt (sched_state ps0 k) ! j = label_of ps0 (executes ps0 j)"
proof (induction k)
  case 0
  then show ?case by simp
next
  case (Suc k)
  show ?case
  proof (cases "j = k")
    case True
    then show ?thesis using sched_gantt_Suc [OF pos, of k] sched_length [OF pos, of k]
      by (simp add: nth_append)
  next
    case False
    then have "j < k" using Suc.prems by simp
    then show ?thesis using Suc.IH sched_gantt_Suc [OF pos, of k] sched_length [OF pos, of k]
      by (simp add: nth_append)
  qed
qed

lemma loop_is_sched:
  assumes l: "srtf_loop (length ps0) (init_state ps0) = Some t" and pos: "\<forall>p \<in> set ps0. 0 < bur p"
  shows "t = sched_state ps0 (length (gantt t))"
proof -
  have w: "while_option (running (length ps0)) srtf_step (init_state ps0) = Some t"
    using l by (simp add: srtf_loop_while)
  obtain k where k: "t = (srtf_step ^^ k) (init_state ps0)"
    using while_option_stop2 [OF w] by auto
  then have "t = sched_state ps0 k" by (simp add: sched_state_def)
  then show ?thesis using sched_length [OF pos, of k] by simp
qed

text \<open>Every finished process carries the tick after its last selection.\<close>

lemma sched_history:
  assumes pos: "\<forall>p \<in> set ps0. 0 < bur p"
  shows "i < length ps0 \<Longrightarrow> remaining (sched_state ps0 k) ! i = 0 \<Longrightarrow>
    \<exists>m<k. ct (procs (sched_state ps0 k) ! i) = Some (int m + 1) \<and> executes ps0 m = Some i
       \<and> (\<forall>j. m < j \<and> j < k \<longrightarrow> executes ps0 j \<noteq> Some i)"
proof (induction k arbitrary: i)
  case 0
  have "ps0 ! i \<in> set ps0" using "0.prems"(1) by simp
  then have "0 < bur (ps0 ! i)" using pos by blast
  then show ?case using "0.prems" by (simp add: sched_state_def init_remaining)
next
  case (Suc k)
  let ?s = "sched_state ps0 k"
  have iv: "inv ps0 ?s" by (rule sched_inv [OF pos])
  then have sh: "inv_shape ps0 ?s" by (simp add: inv_def)
  have tk: "tick ?s = int k" by (rule sched_tick [OF pos])
  have ex: "executes ps0 k = select (procs ?s) (remaining ?s) (tick ?s)"
    by (simp add: executes_def Let_def)
  have keep: "\<exists>m<Suc k. ct (procs ?s ! i) = Some (int m + 1) \<and> executes ps0 m = Some i
       \<and> (\<forall>j. m < j \<and> j < Suc k \<longrightarrow> executes ps0 j \<noteq> Some i)"
    if z: "remaining ?s ! i = 0" and o: "executes ps0 k \<noteq> Some i"
  proof -
    obtain m where m: "m < k" "ct (procs ?s ! i) = Some (int m + 1)" "executes ps0 m = Some i"
      "\<forall>j. m < j \<and> j < k \<longrightarrow> executes ps0 j \<noteq> Some i"
      using Suc.IH [OF Suc.prems(1) z] by blast
    have "\<forall>j. m < j \<and> j < Suc k \<longrightarrow> executes ps0 j \<noteq> Some i"
      using m(4) o by (auto simp: less_Suc_eq)
    then show ?thesis using m(1,2,3) less_SucI by blast
  qed
  from sh show ?case
  proof (cases rule: step_cases)
    case idle
    have z: "remaining ?s ! i = 0" using Suc.prems(2) unfolding sched_Suc idle(2) by simp
    have o: "executes ps0 k \<noteq> Some i" using ex idle(1) by simp
    have e: "procs (sched_state ps0 (Suc k)) ! i = procs ?s ! i"
      unfolding sched_Suc idle(2) by simp
    show ?thesis unfolding e by (rule keep [OF z o])
  next
    case (run i0)
    have l0: "i0 < length (remaining ?s)" "i0 < length (procs ?s)"
      using run(2) sh by (simp_all add: inv_shape_def)
    show ?thesis
    proof (cases "i = i0")
      case True
      have one: "remaining ?s ! i0 = 1"
        using Suc.prems(2) True l0 unfolding sched_Suc run(6) by simp
      have c: "ct (procs (sched_state ps0 (Suc k)) ! i) = Some (int k + 1)"
        unfolding sched_Suc run(6) using one True l0 tk by (simp add: finish_proc_vals)
      have x: "executes ps0 k = Some i" using ex run(1) True by simp
      have v: "\<forall>j. k < j \<and> j < Suc k \<longrightarrow> executes ps0 j \<noteq> Some i" by auto
      show ?thesis using c x v by blast
    next
      case False
      have z: "remaining ?s ! i = 0" using Suc.prems(2) False unfolding sched_Suc run(6) by simp
      have o: "executes ps0 k \<noteq> Some i" using ex run(1) False by simp
      have e: "procs (sched_state ps0 (Suc k)) ! i = procs ?s ! i"
        unfolding sched_Suc run(6) using False by simp
      show ?thesis unfolding e by (rule keep [OF z o])
    qed
  qed
qed

section \<open>Conservation of ticks and bounds on completion times\<close>

lemma demo_value:
  "srtf_scheduling demo =
     Some (Inr ([(mk_proc ''B'' 0 1)\<lparr>ct := Some 1, tat := Some 1, wt := Some 0\<rparr>,
                 (mk_proc ''A'' 3 2)\<lparr>ct := Some 5, tat := Some 2, wt := Some 0\<rparr>],
                0, 3 / 2, [''B'', ''Idle'', ''Idle'', ''A'', ''A'']))"
  by code_simp

lemma demo_valid: "list_all valid_proc demo" "list_all (\<lambda>p. bur p < 10 ^ 9) demo"
  "list_all (\<lambda>p. pid p \<noteq> ''Idle'') demo"
  by (simp_all add: demo_def valid_proc_def mk_proc_def bur_def)

lemma insort_sum: "sum_list (map f (insort_key k x xs)) = (f x :: int) + sum_list (map f xs)"
  by (induction xs) simp_all

lemma sort_sum: "sum_list (map f (sort_key k xs)) = (sum_list (map f xs) :: int)"
  by (induction xs) (simp_all add: insort_sum)

lemma sum_bursts_by_arrival: "sum_bursts (by_arrival ps) = sum_bursts ps"
  by (simp add: sum_bursts_def by_arrival_def sort_sum)

lemma sum_all_zero: "\<forall>x \<in> set xs. x = (0::int) \<Longrightarrow> sum_list xs = 0"
  by (induction xs) simp_all

lemma exit_sum_zero:
  assumes "inv ps0 s" and "\<not> running (length ps0) s"
  shows "sum_list (remaining s) = 0"
proof -
  have l: "length (remaining s) = length ps0" using assms(1) by (simp add: inv_def inv_shape_def)
  have "\<forall>i<length (remaining s). remaining s ! i = 0" using exit_all_zero [OF assms] l by simp
  then have "\<forall>x \<in> set (remaining s). x = 0" by (simp add: all_set_conv_all_nth)
  then show ?thesis by (rule sum_all_zero)
qed

lemma inv_cons_step:
  assumes sh: "inv_shape ps0 s" and c: "inv_cons ps0 s"
    and names: "\<forall>p \<in> set ps0. pid p \<noteq> ''Idle''"
  shows "inv_cons ps0 (srtf_step s)"
using sh proof (cases rule: step_cases)
  case idle
  show ?thesis unfolding idle(2) using c by (simp add: inv_cons_def)
next
  case (run i)
  have li: "i < length (remaining s)" using run(2) sh by (simp add: inv_shape_def)
  have "pid (procs s ! i) = pid (ps0 ! i)" using sh run(2) by (simp add: inv_shape_def same_keys_def)
  moreover have "ps0 ! i \<in> set ps0" using run(2) by simp
  ultimately have n: "pid (procs s ! i) \<noteq> ''Idle''" using names by metis
  have sm: "sum_list ((remaining s)[i := remaining s ! i - 1]) = sum_list (remaining s) - 1"
    using sum_list_upd [OF li, of "remaining s ! i - 1"] by simp
  show ?thesis unfolding run(6) using c n sm by (simp add: inv_cons_def)
qed

lemma loop_cons:
  assumes l: "srtf_loop (length ps0) (init_state ps0) = Some t" and pos: "\<forall>p \<in> set ps0. 0 < bur p"
    and names: "\<forall>p \<in> set ps0. pid p \<noteq> ''Idle''"
  shows "sum_bursts ps0 + int (count_list (gantt t) ''Idle'') = int (length (gantt t))"
proof -
  have w: "while_option (running (length ps0)) srtf_step (init_state ps0) = Some t"
    using l by (simp add: srtf_loop_while)
  have "inv ps0 t \<and> inv_cons ps0 t"
  proof (rule while_option_rule [where P = "\<lambda>s. inv ps0 s \<and> inv_cons ps0 s", OF _ w])
    fix s assume "inv ps0 s \<and> inv_cons ps0 s"
    then show "inv ps0 (srtf_step s) \<and> inv_cons ps0 (srtf_step s)"
      using inv_step inv_cons_step names by (simp add: inv_def)
  next
    have "inv_cons ps0 (init_state ps0)"
      by (simp add: inv_cons_def init_remaining sum_bursts_def) (simp add: init_state_def)
    then show "inv ps0 (init_state ps0) \<and> inv_cons ps0 (init_state ps0)"
      using inv_init [OF pos] by simp
  qed
  moreover have "\<not> running (length ps0) t" using while_option_stop [OF w] .
  ultimately show ?thesis using exit_sum_zero [of ps0 t] by (simp add: inv_cons_def)
qed

text \<open>
  C5: the sum of all burst times plus the number of \<open>Idle\<close> entries of the returned trace is
  the length of the trace. This holds of every list of well-formed descriptors none of which
  is named \<open>Idle\<close>: the call returns a result when all bursts are below \<open>10**9\<close>, and every
  result it returns satisfies the equation. (The executed ticks of a process named \<open>Idle\<close>
  would be counted as idle entries too.)
\<close>

theorem trace_conservation:
  assumes v: "list_all valid_proc ps" and names: "list_all (\<lambda>p. pid p \<noteq> ''Idle'') ps"
  shows "(list_all (\<lambda>p. bur p < 10 ^ 9) ps \<longrightarrow>
            (\<exists>recs avg_wt avg_tat trace.
               srtf_scheduling ps = Some (Inr (recs, avg_wt, avg_tat, trace))))
       \<and> (\<forall>recs avg_wt avg_tat trace.
            srtf_scheduling ps = Some (Inr (recs, avg_wt, avg_tat, trace)) \<longrightarrow>
            sum_bursts ps + int (count_list trace ''Idle'') = int (length trace))"
proof (intro conjI allI impI)
  assume "list_all (\<lambda>p. bur p < 10 ^ 9) ps"
  then show "\<exists>recs avg_wt avg_tat trace.
      srtf_scheduling ps = Some (Inr (recs, avg_wt, avg_tat, trace))"
    by (rule srtf_returns [OF v])
next
  fix recs avg_wt avg_tat trace
  assume r: "srtf_scheduling ps = Some (Inr (recs, avg_wt, avg_tat, trace))"
  show "sum_bursts ps + int (count_list trace ''Idle'') = int (length trace)"
  proof (cases "ps = []")
    case True
    then show ?thesis using r by (simp add: srtf_scheduling_def sum_bursts_def)
  next
    case False
    obtain t where t: "srtf_loop (length (by_arrival ps)) (init_state (by_arrival ps)) = Some t"
      and g: "trace = gantt t"
      using srtf_result [OF v False r] by blast
    have n: "\<forall>p \<in> set (by_arrival ps). pid p \<noteq> ''Idle''" using names by (simp add: list_all_iff)
    show ?thesis using loop_cons [OF t valid_pos [OF v] n] g by (simp add: sum_bursts_by_arrival)
  qed
qed

theorem trace_conservation_witness:
  "sum_bursts demo + int (count_list [''B'', ''Idle'', ''Idle'', ''A'', ''A''] ''Idle'')
     = int (length [''B'', ''Idle'', ''Idle'', ''A'', ''A''])"
  using trace_conservation [OF demo_valid(1) demo_valid(3)] demo_value by blast

text \<open>
  The equation of C5 fails for a process whose identifier is the string \<open>Idle\<close>: its one
  executed tick is also counted as an idle entry.
\<close>

theorem idle_named_process_breaks_conservation:
  "srtf_scheduling [mk_proc ''Idle'' 0 1] =
     Some (Inr ([(mk_proc ''Idle'' 0 1)\<lparr>ct := Some 1, tat := Some 1, wt := Some 0\<rparr>], 0, 1, [''Idle'']))
   \<and> sum_bursts [mk_proc ''Idle'' 0 1] + int (count_list [''Idle''] ''Idle'') \<noteq> int (length [''Idle''])"
  by code_simp

text \<open>
  C6: every returned record has a completion time CT with arrival + burst \<open>\<le>\<close> CT and
  CT \<open>\<le>\<close> T, the length of the returned trace. The call returns a result when all bursts are
  below \<open>10**9\<close>, and every result it returns has the property.
\<close>

theorem completion_bounds:
  assumes v: "list_all valid_proc ps"
  shows "(list_all (\<lambda>p. bur p < 10 ^ 9) ps \<longrightarrow>
            (\<exists>recs avg_wt avg_tat trace.
               srtf_scheduling ps = Some (Inr (recs, avg_wt, avg_tat, trace))))
       \<and> (\<forall>recs avg_wt avg_tat trace.
            srtf_scheduling ps = Some (Inr (recs, avg_wt, avg_tat, trace)) \<longrightarrow>
            list_all (ct_in_bounds (length trace)) recs)"
proof (intro conjI allI impI)
  assume "list_all (\<lambda>p. bur p < 10 ^ 9) ps"
  then show "\<exists>recs avg_wt avg_tat trace.
      srtf_scheduling ps = Some (Inr (recs, avg_wt, avg_tat, trace))"
    by (rule srtf_returns [OF v])
next
  fix recs avg_wt avg_tat trace
  assume r: "srtf_scheduling ps = Some (Inr (recs, avg_wt, avg_tat, trace))"
  show "list_all (ct_in_bounds (length trace)) recs"
  proof (cases "ps = []")
    case True
    then show ?thesis using r by (simp add: srtf_scheduling_def)
  next
    case False
    obtain t where rc: "recs = procs t" and g: "trace = gantt t"
      and iv: "inv (by_arrival ps) t" and ex: "\<not> running (length (by_arrival ps)) t"
      using srtf_result [OF v False r] by blast
    have lp: "length (procs t) = length (by_arrival ps)"
      and tk: "tick t = int (length (gantt t))"
      using iv by (simp_all add: inv_def inv_shape_def)
    have "ct_in_bounds (length (gantt t)) (procs t ! i)" if i: "i < length (procs t)" for i
    proof -
      have "remaining t ! i = 0" using exit_all_zero [OF iv ex] i lp by simp
      then have "finished (procs t ! i) (tick t)" using iv i lp by (simp add: inv_def inv_fin_def)
      then show ?thesis using tk by (auto simp: finished_def ct_in_bounds_def)
    qed
    then show ?thesis using rc g by (simp add: list_all_length)
  qed
qed

theorem completion_bounds_witness:
  "list_all (ct_in_bounds (length [''B'', ''Idle'', ''Idle'', ''A'', ''A'']))
     [(mk_proc ''B'' 0 1)\<lparr>ct := Some 1, tat := Some 1, wt := Some 0\<rparr>,
      (mk_proc ''A'' 3 2)\<lparr>ct := Some 5, tat := Some 2, wt := Some 0\<rparr>]"
  using completion_bounds [OF demo_valid(1)] demo_value by blast

section \<open>Completion time, turnaround time and waiting time\<close>

lemma loop_metrics:
  assumes l: "srtf_loop (length ps0) (init_state ps0) = Some t" and pos: "\<forall>p \<in> set ps0. 0 < bur p"
    and i: "i < length ps0"
  shows "\<exists>m. last_unit_at ps0 (gantt t) i m \<and> gantt t ! m = pid (procs t ! i)
     \<and> ct (procs t ! i) = Some (int m + 1)
     \<and> tat (procs t ! i) = Some (int m + 1 - arr (procs t ! i))
     \<and> wt (procs t ! i) = Some (max 0 (int m + 1 - arr (procs t ! i) - bur (procs t ! i)))"
proof -
  let ?T = "length (gantt t)"
  have iv: "inv ps0 t" and ex: "\<not> running (length ps0) t" using loop_inv [OF l pos] by simp_all
  have ts: "t = sched_state ps0 ?T" by (rule loop_is_sched [OF l pos])
  have z: "remaining t ! i = 0" by (rule exit_all_zero [OF iv ex i])
  then have z': "remaining (sched_state ps0 ?T) ! i = 0" using ts by simp
  obtain m where m: "m < ?T" "ct (procs (sched_state ps0 ?T) ! i) = Some (int m + 1)"
    "executes ps0 m = Some i" "\<forall>j. m < j \<and> j < ?T \<longrightarrow> executes ps0 j \<noteq> Some i"
    using sched_history [OF pos i z'] by blast
  have c: "ct (procs t ! i) = Some (int m + 1)" using m(2) ts by simp
  have lu: "last_unit_at ps0 (gantt t) i m"
    using m(1,3,4) by (simp add: last_unit_at_def list_all_iff)
  have "gantt (sched_state ps0 ?T) ! m = label_of ps0 (executes ps0 m)"
    by (rule sched_gantt_nth [OF pos m(1)])
  then have "gantt t ! m = pid (ps0 ! i)" using ts m(3) by (simp add: label_of_def)
  moreover have "pid (procs t ! i) = pid (ps0 ! i)"
    using iv i by (simp add: inv_def inv_shape_def same_keys_def)
  ultimately have g: "gantt t ! m = pid (procs t ! i)" by simp
  have "finished (procs t ! i) (tick t)" using iv i z by (simp add: inv_def inv_fin_def)
  then have "tat (procs t ! i) = Some (int m + 1 - arr (procs t ! i))
     \<and> wt (procs t ! i) = Some (max 0 (int m + 1 - arr (procs t ! i) - bur (procs t ! i)))"
    using c by (auto simp: finished_def)
  then show ?thesis using lu g c by blast
qed

text \<open>
  C7: each returned record has CT equal to the index of its last executed unit plus one,
  TAT = CT - arrival and WT = TAT - burst clamped below at zero, so WT is not negative.
  The unit of tick \<open>m\<close> belongs to the process that the scan selects at tick \<open>m\<close>
  (\<open>executes\<close>), and the trace carries that process's identifier there. The call returns
  a result when all bursts are below \<open>10**9\<close>, and every result it returns has the property.
\<close>

theorem record_metrics:
  assumes v: "list_all valid_proc ps"
  shows "(list_all (\<lambda>p. bur p < 10 ^ 9) ps \<longrightarrow>
            (\<exists>recs avg_wt avg_tat trace.
               srtf_scheduling ps = Some (Inr (recs, avg_wt, avg_tat, trace))))
       \<and> (\<forall>recs avg_wt avg_tat trace.
            srtf_scheduling ps = Some (Inr (recs, avg_wt, avg_tat, trace)) \<longrightarrow>
            (\<forall>i<length recs. \<exists>m.
               last_unit_at (by_arrival (map alias_keys ps)) trace i m
               \<and> trace ! m = pid (recs ! i)
               \<and> ct (recs ! i) = Some (int m + 1)
               \<and> tat (recs ! i) = Some (int m + 1 - arr (recs ! i))
               \<and> wt (recs ! i) = Some (max 0 (int m + 1 - arr (recs ! i) - bur (recs ! i)))
               \<and> 0 \<le> get_or_0 (wt (recs ! i))))"
proof (intro conjI allI impI)
  assume "list_all (\<lambda>p. bur p < 10 ^ 9) ps"
  then show "\<exists>recs avg_wt avg_tat trace.
      srtf_scheduling ps = Some (Inr (recs, avg_wt, avg_tat, trace))"
    by (rule srtf_returns [OF v])
next
  fix recs avg_wt avg_tat trace i
  assume r: "srtf_scheduling ps = Some (Inr (recs, avg_wt, avg_tat, trace))"
    and i: "i < length recs"
  have ne: "ps \<noteq> []" using r i by (auto simp: srtf_scheduling_def)
  let ?ps0 = "by_arrival ps"
  obtain t where l: "srtf_loop (length ?ps0) (init_state ?ps0) = Some t"
    and rc: "recs = procs t" and g: "trace = gantt t" and iv: "inv ?ps0 t"
    using srtf_result [OF v ne r] by blast
  have i0: "i < length ?ps0" using i rc iv by (simp add: inv_def inv_shape_def)
  obtain m where m: "last_unit_at ?ps0 (gantt t) i m" "gantt t ! m = pid (procs t ! i)"
     "ct (procs t ! i) = Some (int m + 1)"
     "tat (procs t ! i) = Some (int m + 1 - arr (procs t ! i))"
     "wt (procs t ! i) = Some (max 0 (int m + 1 - arr (procs t ! i) - bur (procs t ! i)))"
    using loop_metrics [OF l valid_pos [OF v] i0] by blast
  have "0 \<le> get_or_0 (wt (procs t ! i))" using m(5) by (simp add: get_or_0_def)
  then show "\<exists>m. last_unit_at (by_arrival (map alias_keys ps)) trace i m
               \<and> trace ! m = pid (recs ! i)
               \<and> ct (recs ! i) = Some (int m + 1)
               \<and> tat (recs ! i) = Some (int m + 1 - arr (recs ! i))
               \<and> wt (recs ! i) = Some (max 0 (int m + 1 - arr (recs ! i) - bur (recs ! i)))
               \<and> 0 \<le> get_or_0 (wt (recs ! i))"
    using m rc g valid_alias_map [OF v] by auto
qed

theorem record_metrics_witness:
  "\<exists>m. last_unit_at (by_arrival (map alias_keys demo)) [''B'', ''Idle'', ''Idle'', ''A'', ''A''] 1 m
     \<and> [''B'', ''Idle'', ''Idle'', ''A'', ''A''] ! m = ''A''
     \<and> Some (5::int) = Some (int m + 1)"
proof -
  note r = record_metrics [OF demo_valid(1), THEN conjunct2, rule_format, OF demo_value, of 1]
  have "\<exists>m. last_unit_at (by_arrival (map alias_keys demo)) [''B'', ''Idle'', ''Idle'', ''A'', ''A''] 1 m
     \<and> [''B'', ''Idle'', ''Idle'', ''A'', ''A''] ! m = ''A''
     \<and> Some (5::int) = Some (int m + 1)
     \<and> Some (2::int) = Some (int m + 1 - 3)
     \<and> Some (0::int) = Some (max 0 (int m + 1 - 3 - 2))"
    using r by (simp add: mk_proc_def arr_def bur_def get_or_0_def)
  then show ?thesis by blast
qed

section \<open>The order of the returned records\<close>

lemma shuffled_value:
  "srtf_scheduling shuffled =
     Some (Inr ([(mk_proc ''P2'' 0 8)\<lparr>ct := Some 11, tat := Some 11, wt := Some 3\<rparr>,
                 (mk_proc ''P3'' 1 2)\<lparr>ct := Some 3, tat := Some 2, wt := Some 0\<rparr>,
                 (mk_proc ''P1'' 5 1)\<lparr>ct := Some 6, tat := Some 1, wt := Some 0\<rparr>],
                1, 14 / 3,
                [''P2'', ''P3'', ''P3'', ''P2'', ''P2'', ''P1'', ''P2'', ''P2'', ''P2'', ''P2'', ''P2'']))"
  by code_simp

lemma by_arrival_sorted: "sorted (map arr (by_arrival ps))"
proof -
  have "(\<lambda>x. the (arrival x)) = arr" by (simp add: arr_def fun_eq_iff)
  then show ?thesis using sorted_sort_key [of arr ps] by (simp add: by_arrival_def)
qed

lemma by_arrival_stable:
  "filter (\<lambda>p. arr p = a) (by_arrival ps) = filter (\<lambda>p. arr p = a) ps"
proof -
  have "(\<lambda>x. the (arrival x)) = arr" by (simp add: arr_def fun_eq_iff)
  then show ?thesis using sort_key_stable [of arr a ps] by (simp add: by_arrival_def)
qed

lemma inv_core:
  assumes "inv ps0 t"
  shows "map core (procs t) = map core ps0"
proof (rule nth_equalityI)
  show "length (map core (procs t)) = length (map core ps0)"
    using assms by (simp add: inv_def inv_shape_def)
next
  fix i assume "i < length (map core (procs t))"
  then have i: "i < length ps0" "i < length (procs t)"
    using assms by (simp_all add: inv_def inv_shape_def)
  then have "same_keys (procs t ! i) (ps0 ! i)" using assms by (simp add: inv_def inv_shape_def)
  then have "core (procs t ! i) = core (ps0 ! i)" using same_keys_arr by (simp add: core_def)
  then show "map core (procs t) ! i = map core ps0 ! i" using i by simp
qed

text \<open>
  C10: the returned records are in non-decreasing order of arrival, and records with the
  same arrival keep the relative order they had in the input. The order is in general
  neither the input order nor the order of completion: for P1 (arrival 5, burst 1),
  P2 (0, 8), P3 (1, 2) the records come as P2, P3, P1 with completion times 11, 3, 6.
  The call returns a result when all bursts are below \<open>10**9\<close>, and every result it returns
  has the property.
\<close>

theorem records_by_arrival:
  assumes v: "list_all valid_proc ps"
  shows "(list_all (\<lambda>p. bur p < 10 ^ 9) ps \<longrightarrow>
            (\<exists>recs avg_wt avg_tat trace.
               srtf_scheduling ps = Some (Inr (recs, avg_wt, avg_tat, trace))))
       \<and> (\<forall>recs avg_wt avg_tat trace.
            srtf_scheduling ps = Some (Inr (recs, avg_wt, avg_tat, trace)) \<longrightarrow>
            sorted (map arr recs)
            \<and> (\<forall>a. filter (\<lambda>c. fst (snd c) = a) (map core recs)
                     = filter (\<lambda>c. fst (snd c) = a) (map core ps)))
       \<and> (\<exists>recs avg_wt avg_tat trace.
            srtf_scheduling shuffled = Some (Inr (recs, avg_wt, avg_tat, trace))
            \<and> map pid shuffled = [''P1'', ''P2'', ''P3'']
            \<and> map pid recs = [''P2'', ''P3'', ''P1'']
            \<and> map ct recs = [Some 11, Some 3, Some 6])"
proof (intro conjI allI impI)
  assume "list_all (\<lambda>p. bur p < 10 ^ 9) ps"
  then show "\<exists>recs avg_wt avg_tat trace.
      srtf_scheduling ps = Some (Inr (recs, avg_wt, avg_tat, trace))"
    by (rule srtf_returns [OF v])
next
  show "\<exists>recs avg_wt avg_tat trace.
            srtf_scheduling shuffled = Some (Inr (recs, avg_wt, avg_tat, trace))
            \<and> map pid shuffled = [''P1'', ''P2'', ''P3'']
            \<and> map pid recs = [''P2'', ''P3'', ''P1'']
            \<and> map ct recs = [Some 11, Some 3, Some 6]"
    by (intro exI conjI, rule shuffled_value) (simp_all add: shuffled_def mk_proc_def)
next
  fix recs avg_wt avg_tat trace
  assume r: "srtf_scheduling ps = Some (Inr (recs, avg_wt, avg_tat, trace))"
  have c: "map core recs = map core (by_arrival ps)"
  proof (cases "ps = []")
    case True
    then show ?thesis using r by (simp add: srtf_scheduling_def by_arrival_def)
  next
    case False
    obtain t where "recs = procs t" "inv (by_arrival ps) t"
      using srtf_result [OF v False r] by blast
    then show ?thesis using inv_core by simp
  qed
  have "map arr recs = map (\<lambda>c. fst (snd c)) (map core recs)" by (simp add: core_def)
  also have "\<dots> = map arr (by_arrival ps)" unfolding c by (simp add: core_def)
  finally show "sorted (map arr recs)" using by_arrival_sorted by simp
  fix a
  have "filter (\<lambda>c. fst (snd c) = a) (map core (by_arrival ps))
      = map core (filter (\<lambda>p. arr p = a) (by_arrival ps))"
    by (simp add: filter_map core_def comp_def)
  also have "\<dots> = map core (filter (\<lambda>p. arr p = a) ps)" by (simp add: by_arrival_stable)
  also have "\<dots> = filter (\<lambda>c. fst (snd c) = a) (map core ps)"
    by (simp add: filter_map core_def comp_def)
  finally show "filter (\<lambda>c. fst (snd c) = a) (map core recs)
      = filter (\<lambda>c. fst (snd c) = a) (map core ps)"
    unfolding c .
qed

theorem records_by_arrival_witness:
  "sorted (map arr [(mk_proc ''B'' 0 1)\<lparr>ct := Some 1, tat := Some 1, wt := Some 0\<rparr>,
                    (mk_proc ''A'' 3 2)\<lparr>ct := Some 5, tat := Some 2, wt := Some 0\<rparr>])"
  using records_by_arrival [OF demo_valid(1), THEN conjunct2, THEN conjunct1, rule_format,
      OF demo_value]
  by blast

section \<open>The alternate spellings of arrival and burst\<close>

lemma srtf_scheduling_tail:
  "srtf_scheduling ps =
     (if ps = [] then Some (Inr ([], 0, 0, [])) else srtf_tail (map alias_keys ps))"
  by (simp add: srtf_scheduling_def srtf_tail_def)

lemma erase_fields [simp]:
  "pid (erase p) = pid p" "arrival (erase p) = arrival p" "burst (erase p) = burst p"
  "ct (erase p) = ct p" "tat (erase p) = tat p" "wt (erase p) = wt p"
  "erase (erase p) = erase p"
  by (simp_all add: erase_def)

lemma erase_respell: "plain p \<Longrightarrow> erase (alias_keys (respell f p)) = erase (alias_keys p)"
  by (cases f)
    (auto simp: plain_def respell_def rename_arrival_def rename_burst_def alias_keys_def
      erase_def Let_def)

lemma erase_respell_map:
  "length fs = length ps \<Longrightarrow> list_all plain ps \<Longrightarrow>
   map erase (map alias_keys (map2 respell fs ps)) = map erase (map alias_keys ps)"
proof (induction fs ps rule: list_induct2)
  case Nil
  show ?case by simp
next
  case (Cons f fs p ps)
  then show ?case using erase_respell [of p f] by simp
qed

lemma erase_finish: "finish_proc f (erase p) = erase (finish_proc f p)"
  by (simp add: finish_proc_def erase_def Let_def)

lemma insort_erase:
  "map erase (insort_key (\<lambda>x. the (arrival x)) p xs)
     = insort_key (\<lambda>x. the (arrival x)) (erase p) (map erase xs)"
  by (induction xs) simp_all

lemma sort_erase:
  "map erase (sort_key (\<lambda>x. the (arrival x)) xs) = sort_key (\<lambda>x. the (arrival x)) (map erase xs)"
  by (induction xs) (simp_all add: insort_erase)

lemma list_ex_erase:
  "list_ex (\<lambda>p. arrival p = None) (map erase xs) = list_ex (\<lambda>p. arrival p = None) xs"
  "list_ex (\<lambda>p. burst p = None) (map erase xs) = list_ex (\<lambda>p. burst p = None) xs"
  by (simp_all add: list_ex_iff)

lemma select_erase: "select (map erase ps) rem now = select ps rem now"
proof -
  have "foldl (scan_step (map erase ps) rem now) (None, 10 ^ 9) [0 ..< length ps]
      = foldl (scan_step ps rem now) (None, 10 ^ 9) [0 ..< length ps]"
    by (rule foldl_cong) (simp_all add: scan_step_def)
  then show ?thesis by (simp add: select_def)
qed

lemma step_erase: "srtf_step (erase_state s) = erase_state (srtf_step s)"
proof (cases "select (procs s) (remaining s) (tick s)")
  case None
  then show ?thesis by (simp add: srtf_step_def erase_state_def select_erase)
next
  case (Some idx)
  have "idx < length (procs s)" using select_Some(1) [OF Some] .
  then show ?thesis using Some
    by (simp add: srtf_step_def erase_state_def select_erase Let_def map_update erase_finish)
qed

lemma init_erase: "init_state (map erase ps) = erase_state (init_state ps)"
  by (simp add: init_state_def erase_state_def comp_def)

lemma loop_erase: "srtf_loop n (erase_state s) = map_option erase_state (srtf_loop n s)"
proof -
  have "map_option erase_state (while_option (running n) srtf_step s)
      = while_option (running n) srtf_step (erase_state s)"
    by (rule while_option_commute) (simp_all add: running_def erase_state_def step_erase [unfolded erase_state_def])
  then show ?thesis by (simp add: srtf_loop_while)
qed

lemma tail_erase: "strip_result (srtf_tail (map erase xs)) = strip_result (srtf_tail xs)"
proof -
  let ?S = "sort_key (\<lambda>x. the (arrival x)) xs"
  have l: "srtf_loop (length xs) (init_state (map erase ?S))
      = map_option erase_state (srtf_loop (length xs) (init_state ?S))"
    by (simp add: init_erase loop_erase)
  show ?thesis
  proof (cases "srtf_loop (length xs) (init_state ?S)")
    case None
    then show ?thesis using l
      by (simp add: srtf_tail_def strip_result_def list_ex_erase sort_erase [symmetric] Let_def)
  next
    case (Some s)
    then show ?thesis using l
      by (simp add: srtf_tail_def strip_result_def list_ex_erase sort_erase [symmetric] Let_def
          erase_state_def comp_def)
  qed
qed

text \<open>
  C9: renaming the key \<open>arrival\<close> to \<open>arrival_time\<close> and/or \<open>burst\<close> to \<open>burst_time\<close> in any of
  the descriptors (the list \<open>fs\<close> says which keys of which descriptor are renamed) changes
  nothing in the outcome of \<open>srtf_scheduling\<close>: the same trace, the same averages, and records
  that differ at most in the two alternate keys, so with the same ct, tat and wt. The input
  descriptors carry the canonical spellings only.
\<close>

theorem alias_spelling_irrelevant:
  assumes "length fs = length ps" and "list_all plain ps"
  shows "strip_result (srtf_scheduling (map2 respell fs ps)) = strip_result (srtf_scheduling ps)"
proof (cases "ps = []")
  case True
  then show ?thesis using assms by simp
next
  case False
  then have ne: "map2 respell fs ps \<noteq> []" using assms(1) by (cases fs; cases ps) simp_all
  have "strip_result (srtf_tail (map alias_keys (map2 respell fs ps)))
      = strip_result (srtf_tail (map erase (map alias_keys (map2 respell fs ps))))"
    by (simp only: tail_erase)
  also have "\<dots> = strip_result (srtf_tail (map erase (map alias_keys ps)))"
    using erase_respell_map [OF assms] by simp
  also have "\<dots> = strip_result (srtf_tail (map alias_keys ps))" by (simp only: tail_erase)
  finally show ?thesis using False ne by (simp add: srtf_scheduling_tail)
qed

theorem alias_spelling_irrelevant_witness:
  "strip_result (srtf_scheduling (map2 respell [(True, False), (True, True)] demo))
     = Some (Inr ([(mk_proc ''B'' 0 1)\<lparr>ct := Some 1, tat := Some 1, wt := Some 0\<rparr>,
                   (mk_proc ''A'' 3 2)\<lparr>ct := Some 5, tat := Some 2, wt := Some 0\<rparr>],
                  0, 3 / 2, [''B'', ''Idle'', ''Idle'', ''A'', ''A'']))"
proof -
  have "strip_result (srtf_scheduling (map2 respell [(True, False), (True, True)] demo))
      = strip_result (srtf_scheduling demo)"
    by (rule alias_spelling_irrelevant) (simp_all add: demo_def plain_def mk_proc_def)
  then show ?thesis unfolding demo_value by (simp add: strip_result_def erase_def mk_proc_def)
qed

section \<open>Ties on the smallest remaining time\<close>

text \<open>
  The scan returns the first index, in the order of the sorted list, among the runnable
  processes with the smallest remaining time, when that time is below the initial minimum.
\<close>

lemma select_tie_break:
  assumes i: "i < length ps" and r: "runnable ps rem now i" and small: "rem ! i < 10 ^ 9"
    and least: "\<forall>j<length ps. runnable ps rem now j \<longrightarrow> rem ! i \<le> rem ! j"
    and first: "\<forall>j<i. runnable ps rem now j \<longrightarrow> rem ! i < rem ! j"
  shows "select ps rem now = Some i"
proof (cases "select ps rem now")
  case None
  then show ?thesis using select_None [OF None i r] small by simp
next
  case (Some k)
  have k: "k < length ps" "runnable ps rem now k" using select_Some(1,2) [OF Some] by simp_all
  have e: "rem ! k = rem ! i" using select_Some(4) [OF Some i r] least k by fastforce
  have "\<not> k < i" using first k(2) e by fastforce
  moreover have "\<not> i < k" using select_Some(5) [OF Some _ r] e by fastforce
  ultimately show ?thesis using Some by simp
qed

lemma tie_scenario:
  "srtf_scheduling [mk_proc ''P1'' 0 3, mk_proc ''P2'' 0 3] =
     Some (Inr ([(mk_proc ''P1'' 0 3)\<lparr>ct := Some 3, tat := Some 3, wt := Some 0\<rparr>,
                 (mk_proc ''P2'' 0 3)\<lparr>ct := Some 6, tat := Some 6, wt := Some 3\<rparr>],
                3 / 2, 9 / 2, [''P1'', ''P1'', ''P1'', ''P2'', ''P2'', ''P2'']))"
  by code_simp

text \<open>
  C2: when several runnable processes tie on the smallest remaining time, the first of them
  in the sorted order is claimed to be selected, for every input and at every tick. Two
  processes that arrive at tick 0 with burst \<open>10**9\<close> are both runnable and tie, yet the
  scan selects neither, because it only accepts a remaining time below its initial
  \<open>min_rem = 10**9\<close>; the tick is idle and the call never returns.
\<close>

theorem tie_at_initial_minimum_selects_nothing:
  "runnable tied [1000000000, 1000000000] 0 0
   \<and> runnable tied [1000000000, 1000000000] 0 1
   \<and> select tied [1000000000, 1000000000] 0 = None
   \<and> remaining (init_state tied) = [1000000000, 1000000000]
   \<and> srtf_scheduling tied = None"
proof -
  have "srtf_scheduling tied = None"
    by (rule srtf_diverges) (simp_all add: tied_def valid_proc_def mk_proc_def bur_def)
  moreover have "select tied [1000000000, 1000000000] 0 = None"
    by (simp add: select_def scan_step_def tied_def mk_proc_def)
  ultimately show ?thesis
    by (simp add: runnable_def tied_def mk_proc_def init_state_def)
qed

section \<open>Termination within the bound\<close>

lemma max_arrival_le:
  "0 \<le> M \<Longrightarrow> \<forall>p \<in> set ps. arr p \<le> M \<Longrightarrow> max_arrival ps \<le> M"
  by (induction ps) (simp_all add: max_arrival_def)

lemma max_arrival_by_arrival: "max_arrival (by_arrival ps) = max_arrival ps"
proof (rule antisym)
  show "max_arrival (by_arrival ps) \<le> max_arrival ps"
    by (rule max_arrival_le) (simp_all add: max_arrival_nonneg max_arrival_ge)
  have "\<forall>p \<in> set ps. arr p \<le> max_arrival (by_arrival ps)"
    using max_arrival_ge [of _ "by_arrival ps"] by simp
  then show "max_arrival ps \<le> max_arrival (by_arrival ps)"
    by (rule max_arrival_le [OF max_arrival_nonneg])
qed

lemma max_arrival_Max:
  "ps \<noteq> [] \<Longrightarrow> \<forall>p \<in> set ps. 0 \<le> arr p \<Longrightarrow> max_arrival ps = Max (arr ` set ps)"
proof (induction ps)
  case Nil
  then show ?case by simp
next
  case (Cons p ps)
  show ?case
  proof (cases "ps = []")
    case True
    then show ?thesis using Cons.prems by (simp add: max_arrival_def)
  next
    case False
    then have "max_arrival ps = Max (arr ` set ps)" using Cons by simp
    then show ?thesis using False by (simp add: max_arrival_def)
  qed
qed

text \<open>
  With every burst below the scan's initial minimum the call returns, and its trace is
  no longer than the sum of the bursts plus the largest arrival.
\<close>

lemma srtf_terminates_within_bound:
  assumes v: "list_all valid_proc ps" and small: "list_all (\<lambda>p. bur p < 10 ^ 9) ps"
  shows "\<exists>recs avg_wt avg_tat trace.
     srtf_scheduling ps = Some (Inr (recs, avg_wt, avg_tat, trace))
     \<and> int (length trace) \<le> sum_bursts ps + max_arrival ps"
proof -
  obtain recs avg_wt avg_tat trace
    where r: "srtf_scheduling ps = Some (Inr (recs, avg_wt, avg_tat, trace))"
    using srtf_returns [OF v small] by blast
  have "int (length trace) \<le> sum_bursts ps + max_arrival ps"
  proof (cases "ps = []")
    case True
    then show ?thesis using r by (simp add: srtf_scheduling_def sum_bursts_def max_arrival_def)
  next
    case False
    obtain t where t: "srtf_loop (length (by_arrival ps)) (init_state (by_arrival ps)) = Some t"
      and g: "trace = gantt t"
      using srtf_result [OF v False r] by blast
    have s: "\<forall>p \<in> set (by_arrival ps). bur p < 10 ^ 9" using small by (simp add: list_all_iff)
    show ?thesis using loop_bound [OF t valid_pos [OF v] s] g
      by (simp add: sum_bursts_by_arrival max_arrival_by_arrival)
  qed
  then show ?thesis using r by blast
qed

end
